theory Spec2Isabelle
  imports Complex_Main "HOL-Library.Char_ord" "HOL-Library.List_Lexorder" "HOL-Library.AList"
begin

section \<open>Checkpoint helpers of diffusion\_distillation/checkpoints.py\<close>

text \<open>
  The module saves, rotates, finds and restores checkpoint files of one directory.
  The development follows the source top down: the two regular expressions and
  \<open>natural_sort\<close>, then \<open>save_checkpoint\<close>, \<open>latest_checkpoint_path\<close>, the two restore
  functions and the polling loop.

  Python exceptions are values of \<open>error\<close>; a function that can raise returns
  \<open>error + 'a\<close> with \<open>Inl\<close> for the exception.
\<close>

datatype error = TypeError | ValueError | FileExistsError | FileNotFoundError | UnpicklingError

subsection \<open>The numeric-substring regular expressions\<close>

text \<open>
  \<open>SIGNED_FLOAT_RE\<close> and \<open>UNSIGNED_FLOAT_RE\<close> match the same text,
  \<^verbatim>\<open>[-+]?(?:\d+(?:\.\d*)?|\.\d+)(?:[eE][-+]?\d+)?\<close>, and differ only in what the single
  group captures: the whole match, or the match without its leading sign. The matcher
  below follows Python's backtracking search on this pattern: every quantifier is greedy
  and the first alternative is tried first. Characters are bytes, so \<^verbatim>\<open>\d\<close> is the ASCII
  digits.
\<close>

definition is_digit :: "char \<Rightarrow> bool" where
  "is_digit c = (CHR ''0'' \<le> c \<and> c \<le> CHR ''9'')"

definition is_sign :: "char \<Rightarrow> bool" where
  "is_sign c = (c = CHR ''-'' \<or> c = CHR ''+'')"

definition is_exp :: "char \<Rightarrow> bool" where
  "is_exp c = (c = CHR ''e'' \<or> c = CHR ''E'')"

text \<open>\<^verbatim>\<open>(?:\d+(?:\.\d*)?|\.\d+)\<close> at the start of \<open>s\<close>: the matched text and the rest.\<close>

definition match_mantissa :: "string \<Rightarrow> (string \<times> string) option" where
  "match_mantissa s =
     (let ds = takeWhile is_digit s; r = dropWhile is_digit s in
      if ds \<noteq> [] then
        (case r of
           [] \<Rightarrow> Some (ds, r)
         | c # r' \<Rightarrow>
             if c = CHR ''.''
             then Some (ds @ c # takeWhile is_digit r', dropWhile is_digit r')
             else Some (ds, r))
      else
        (case s of
           [] \<Rightarrow> None
         | c # r' \<Rightarrow>
             if c = CHR ''.'' \<and> takeWhile is_digit r' \<noteq> []
             then Some (c # takeWhile is_digit r', dropWhile is_digit r')
             else None))"

text \<open>\<^verbatim>\<open>(?:[eE][-+]?\d+)?\<close> at the start of \<open>s\<close>; it matches the empty text when no
  complete exponent is there.\<close>

definition match_exponent :: "string \<Rightarrow> string \<times> string" where
  "match_exponent s =
     (case s of
        [] \<Rightarrow> ([], s)
      | c # r \<Rightarrow>
          if is_exp c then
            (let sg = (case r of [] \<Rightarrow> [] | d # _ \<Rightarrow> if is_sign d then [d] else []);
                 r' = drop (length sg) r;
                 ds = takeWhile is_digit r'
             in if ds \<noteq> [] then (c # sg @ ds, dropWhile is_digit r') else ([], s))
          else ([], s))"

text \<open>The whole pattern at the start of \<open>s\<close>: the sign (empty or one character), the
  number after it, and the rest of \<open>s\<close>. This is \<^verbatim>\<open>float_re.match(s)\<close>.\<close>

definition match_float :: "string \<Rightarrow> (string \<times> string \<times> string) option" where
  "match_float s =
     (let sg = (case s of [] \<Rightarrow> [] | c # _ \<Rightarrow> if is_sign c then [c] else []) in
      case match_mantissa (drop (length sg) s) of
        None \<Rightarrow> None
      | Some (m, r) \<Rightarrow> (case match_exponent r of (e, r') \<Rightarrow> Some (sg, m @ e, r')))"

lemma match_mantissa_shorter:
  "match_mantissa s = Some (m, r) \<Longrightarrow> length r < length s"
proof -
  assume a: "match_mantissa s = Some (m, r)"
  have d: "length (dropWhile is_digit t) \<le> length t" for t
    by (rule length_dropWhile_le)
  show ?thesis
  proof (cases "takeWhile is_digit s = []")
    case True
    with a obtain c r' where s: "s = c # r'" and r: "r = dropWhile is_digit r'"
      by (auto simp: match_mantissa_def Let_def split: list.splits if_splits)
    with d [of r'] show ?thesis by simp
  next
    case False
    then have lt: "length (dropWhile is_digit s) < length s"
      by (metis length_append length_greater_0_conv less_add_same_cancel2
          takeWhile_dropWhile_id)
    show ?thesis
    proof (cases "dropWhile is_digit s")
      case Nil
      with a False lt show ?thesis by (auto simp: match_mantissa_def Let_def)
    next
      case (Cons c r')
      with a False have "r = dropWhile is_digit r' \<or> r = dropWhile is_digit s"
        by (auto simp: match_mantissa_def Let_def split: if_splits)
      with lt Cons d [of r'] show ?thesis by auto
    qed
  qed
qed

lemma match_exponent_shorter:
  "match_exponent s = (e, r) \<Longrightarrow> length r \<le> length s"
proof -
  assume a: "match_exponent s = (e, r)"
  have d: "length (dropWhile is_digit t) \<le> length t" for t
    by (rule length_dropWhile_le)
  show ?thesis
  proof (cases s)
    case Nil
    with a show ?thesis by (simp add: match_exponent_def)
  next
    case (Cons c t)
    show ?thesis
    proof (cases "r = s")
      case True
      then show ?thesis by simp
    next
      case False
      with a Cons obtain k where "r = dropWhile is_digit (drop k t)"
        by (auto simp: match_exponent_def Let_def split: if_splits)
      with d [of "drop k t"] Cons show ?thesis by simp
    qed
  qed
qed

lemma match_float_shorter:
  "match_float s = Some (sg, num, rest) \<Longrightarrow> length rest < length s"
proof -
  assume a: "match_float s = Some (sg, num, rest)"
  then obtain k m r e where m: "match_mantissa (drop k s) = Some (m, r)"
    and e: "match_exponent r = (e, rest)"
    by (auto simp: match_float_def Let_def split: option.splits prod.splits)
  from match_mantissa_shorter [OF m] match_exponent_shorter [OF e]
  show ?thesis by simp
qed

text \<open>
  \<^verbatim>\<open>float_re.split(s)\<close>: the pattern has one capturing group, so the result alternates
  the text between matches with the captured group of each match, starting and ending
  with text (possibly empty). The search goes left to right and takes the first position
  where the pattern matches; \<open>lit\<close> collects, reversed, the characters passed since the
  last match. With \<open>signed\<close> the group is the whole match; without it the group leaves
  the sign out, and the sign, being matched but not captured, is in no piece.
\<close>

function re_split :: "bool \<Rightarrow> string \<Rightarrow> string \<Rightarrow> string list" where
  "re_split signed lit [] = [rev lit]"
| "re_split signed lit (c # s) =
     (case match_float (c # s) of
        None \<Rightarrow> re_split signed (c # lit) s
      | Some (sg, num, rest) \<Rightarrow>
          rev lit # (if signed then sg @ num else num) # re_split signed [] rest)"
  by pat_completeness auto
termination
  by (relation "measure (\<lambda>(signed, lit, s). length s)")
     (auto dest: match_float_shorter)

subsection \<open>natural\_sort\<close>

text \<open>
  \<^verbatim>\<open>float(s)\<close> for a text that is, as a whole, a match of the pattern. The value is kept
  as the exact decimal number the text denotes. (Python rounds it to the nearest double,
  which keeps the order \<open>\<le>\<close> of two values and can only merge values closer than the
  spacing of doubles; the names in the theorems below denote values that doubles keep
  apart.) On any other text the model raises \<open>ValueError\<close>; \<open>maybe_num\<close> calls it on
  pieces that start with a match, and the pieces \<open>re_split\<close> produces are either free of
  matches or are matches as a whole.
\<close>

definition digit_val :: "char \<Rightarrow> nat" where
  "digit_val c = of_char c - 48"

definition nat_of_digits :: "string \<Rightarrow> nat" where
  "nat_of_digits ds = foldl (\<lambda>a c. 10 * a + digit_val c) 0 ds"

definition scale10 :: "rat \<Rightarrow> int \<Rightarrow> rat" where
  "scale10 m ex = (if 0 \<le> ex then m * 10 ^ nat ex else m / 10 ^ nat (- ex))"

definition float_value :: "string \<Rightarrow> rat" where
  "float_value s =
     (let neg = (case s of [] \<Rightarrow> False | c # _ \<Rightarrow> c = CHR ''-'');
          u = (case s of [] \<Rightarrow> [] | c # t \<Rightarrow> if is_sign c then t else s);
          ip = takeWhile is_digit u;
          r = dropWhile is_digit u;
          dot = (case r of [] \<Rightarrow> False | c # _ \<Rightarrow> c = CHR ''.'');
          fp = (if dot then takeWhile is_digit (tl r) else []);
          ep = (if dot then dropWhile is_digit (tl r) else r);
          es = (case ep of [] \<Rightarrow> [] | _ # t \<Rightarrow> t);
          eneg = (case es of [] \<Rightarrow> False | c # _ \<Rightarrow> c = CHR ''-'');
          ed = (case es of [] \<Rightarrow> [] | c # t \<Rightarrow> if is_sign c then t else es);
          ex = (if eneg then - int (nat_of_digits ed) else int (nat_of_digits ed));
          m = of_nat (nat_of_digits (ip @ fp)) / 10 ^ length fp
      in scale10 (if neg then - m else m) ex)"

definition py_float :: "string \<Rightarrow> error + rat" where
  "py_float s =
     (case match_float s of
        None \<Rightarrow> Inl ValueError
      | Some (sg, num, rest) \<Rightarrow> if rest = [] then Inr (float_value s) else Inl ValueError)"

text \<open>The elements of a sort key: a Python \<open>str\<close> or a Python \<open>float\<close>.\<close>

datatype token = Txt string | Num rat

definition maybe_num :: "bool \<Rightarrow> string \<Rightarrow> error + token" where
  "maybe_num signed s =
     (if match_float s \<noteq> None
      then (case py_float s of Inl e \<Rightarrow> Inl e | Inr v \<Rightarrow> Inr (Num v))
      else Inr (Txt s))"

text \<open>A list comprehension over a function that can raise: the first exception ends it.\<close>

fun map_err :: "('a \<Rightarrow> error + 'b) \<Rightarrow> 'a list \<Rightarrow> error + 'b list" where
  "map_err f [] = Inr []"
| "map_err f (x # xs) =
     (case f x of
        Inl e \<Rightarrow> Inl e
      | Inr y \<Rightarrow> (case map_err f xs of Inl e \<Rightarrow> Inl e | Inr ys \<Rightarrow> Inr (y # ys)))"

definition split_keys :: "bool \<Rightarrow> string \<Rightarrow> error + token list" where
  "split_keys signed s = map_err (maybe_num signed) (re_split signed [] s)"

text \<open>
  Python's \<open><\<close> on the keys. Two strings compare by code point, two floats by value, and
  a string against a float raises \<open>TypeError\<close>. Two lists compare at the first index
  where their elements are not equal (\<open>==\<close> between a string and a float is just false);
  when there is none, the shorter list is the smaller.
\<close>

fun tok_lt :: "token \<Rightarrow> token \<Rightarrow> error + bool" where
  "tok_lt (Txt a) (Txt b) = Inr (a < b)"
| "tok_lt (Num a) (Num b) = Inr (a < b)"
| "tok_lt (Txt a) (Num b) = Inl TypeError"
| "tok_lt (Num a) (Txt b) = Inl TypeError"

fun key_lt :: "token list \<Rightarrow> token list \<Rightarrow> error + bool" where
  "key_lt [] [] = Inr False"
| "key_lt [] (y # ys) = Inr True"
| "key_lt (x # xs) [] = Inr False"
| "key_lt (x # xs) (y # ys) = (if x = y then key_lt xs ys else tok_lt x y)"

text \<open>
  \<^verbatim>\<open>sorted(file_list, key=split_keys)\<close> computes every key first and then sorts stably,
  asking only \<open><\<close> of two keys. The model is the stable insertion sort: each element, in
  input order, goes in front of the first element already placed whose key is greater.
\<close>

fun insert_keyed ::
  "token list \<times> string \<Rightarrow> (token list \<times> string) list \<Rightarrow> error + (token list \<times> string) list" where
  "insert_keyed x [] = Inr [x]"
| "insert_keyed x (y # ys) =
     (case key_lt (fst x) (fst y) of
        Inl e \<Rightarrow> Inl e
      | Inr b \<Rightarrow>
          if b then Inr (x # y # ys)
          else (case insert_keyed x ys of Inl e \<Rightarrow> Inl e | Inr r \<Rightarrow> Inr (y # r)))"

fun sort_keyed ::
  "(token list \<times> string) list \<Rightarrow> (token list \<times> string) list \<Rightarrow> error + (token list \<times> string) list" where
  "sort_keyed acc [] = Inr acc"
| "sort_keyed acc (x # xs) =
     (case insert_keyed x acc of Inl e \<Rightarrow> Inl e | Inr acc' \<Rightarrow> sort_keyed acc' xs)"

definition natural_sort :: "string list \<Rightarrow> bool \<Rightarrow> error + string list" where
  "natural_sort file_list signed =
     (case map_err (split_keys signed) file_list of
        Inl e \<Rightarrow> Inl e
      | Inr keys \<Rightarrow>
          (case sort_keyed [] (zip keys file_list) of
             Inl e \<Rightarrow> Inl e
           | Inr r \<Rightarrow> Inr (map snd r)))"

text \<open>The comparison the sort makes between two names: \<open><\<close> on their keys.\<close>

definition natural_lt :: "bool \<Rightarrow> string \<Rightarrow> string \<Rightarrow> error + bool" where
  "natural_lt signed a b =
     (case split_keys signed a of
        Inl e \<Rightarrow> Inl e
      | Inr ka \<Rightarrow> (case split_keys signed b of Inl e \<Rightarrow> Inl e | Inr kb \<Rightarrow> key_lt ka kb))"

text \<open>A token with its number made non-negative.\<close>

fun abs_token :: "token \<Rightarrow> token" where
  "abs_token (Txt s) = Txt s"
| "abs_token (Num v) = Num \<bar>v\<bar>"

text \<open>The shape of a key: text and numbers in turn; \<open>b\<close> tells whether a number comes
  first.\<close>

fun alternates :: "bool \<Rightarrow> token list \<Rightarrow> bool" where
  "alternates b [] = True"
| "alternates b (Txt s # r) = (\<not> b \<and> alternates True r)"
| "alternates b (Num v # r) = (b \<and> alternates False r)"

subsection \<open>The checkpoint directory\<close>

text \<open>
  The state is the content of \<open>ckpt_dir\<close>: its regular files, each a name with a content,
  in the order the operating system lists them. A name occurs once
  (\<open>distinct (listdir d)\<close>). The source addresses a file as
  \<^verbatim>\<open>os.path.join(ckpt_dir, name)\<close>; the model addresses it by \<open>name\<close> and builds the path
  where the source returns or compares one. A directory that does not exist is the empty
  content: \<open>save_checkpoint\<close> creates it first, and \<^verbatim>\<open>glob\<close>, \<^verbatim>\<open>os.path.exists\<close> and
  \<^verbatim>\<open>open\<close> treat a missing directory like an empty one.
\<close>

type_synonym 'b directory = "(string \<times> 'b) list"

definition listdir :: "'b directory \<Rightarrow> string list" where
  "listdir d = map fst d"

definition exists :: "'b directory \<Rightarrow> string \<Rightarrow> bool" where
  "exists d name = (map_of d name \<noteq> None)"

text \<open>\<^verbatim>\<open>open(path, 'wb')\<close> followed by the write of \<open>b\<close>: creates or replaces the file.\<close>

definition write_file :: "'b directory \<Rightarrow> string \<Rightarrow> 'b \<Rightarrow> 'b directory" where
  "write_file d name b = AList.update name b d"

definition os_remove :: "'b directory \<Rightarrow> string \<Rightarrow> error + 'b directory" where
  "os_remove d name =
     (if exists d name then Inr (AList.delete name d) else Inl FileNotFoundError)"

text \<open>\<^verbatim>\<open>shutil.move(src, dst)\<close> between two files of the directory is \<^verbatim>\<open>os.rename\<close>:
  \<open>dst\<close> gets the content of \<open>src\<close>, replacing what it had, and \<open>src\<close> is gone.\<close>

definition shutil_move :: "'b directory \<Rightarrow> string \<Rightarrow> string \<Rightarrow> error + 'b directory" where
  "shutil_move d src dst =
     (case map_of d src of
        None \<Rightarrow> Inl FileNotFoundError
      | Some b \<Rightarrow> Inr (AList.update dst b (AList.delete src d)))"

text \<open>\<^verbatim>\<open>os.path.join(a, b)\<close> of posixpath, for two arguments.\<close>

definition path_join :: "string \<Rightarrow> string \<Rightarrow> string" where
  "path_join a b =
     (if b \<noteq> [] \<and> hd b = CHR ''/'' then b
      else if a = [] \<or> last a = CHR ''/'' then a @ b
      else a @ CHR ''/'' # b)"

definition startswith :: "string \<Rightarrow> string \<Rightarrow> bool" where
  "startswith s p = (take (length p) s = p)"

text \<open>\<^verbatim>\<open>os.path.split(p)\<close> of posixpath: the part up to the last separator and the part
  after it; the first part loses its trailing separators unless it consists of
  separators only.\<close>

definition posix_split :: "string \<Rightarrow> string \<times> string" where
  "posix_split p =
     (let tail = rev (takeWhile (\<lambda>c. c \<noteq> CHR ''/'') (rev p));
          head = rev (dropWhile (\<lambda>c. c \<noteq> CHR ''/'') (rev p))
      in (if head \<noteq> [] \<and> \<not> list_all (\<lambda>c. c = CHR ''/'') head
          then rev (dropWhile (\<lambda>c. c = CHR ''/'') (rev head)) else head,
          tail))"

text \<open>\<^verbatim>\<open>glob.has_magic\<close>: a text with one of the pattern characters.\<close>

definition has_magic :: "string \<Rightarrow> bool" where
  "has_magic s = list_ex (\<lambda>c. c = CHR ''*'' \<or> c = CHR ''?'' \<or> c = CHR ''['') s"

text \<open>A directory written without a spare separator at its end: it consists of separators
  only (or is empty), or does not end in two of them.\<close>

definition plain_dir :: "string \<Rightarrow> bool" where
  "plain_dir a =
     (list_all (\<lambda>c. c = CHR ''/'') a
      \<or> (case rev a of
            x # y # _ \<Rightarrow> x \<noteq> CHR ''/'' \<or> y \<noteq> CHR ''/''
          | _ \<Rightarrow> True))"

text \<open>
  \<^verbatim>\<open>glob.glob(os.path.join(ckpt_dir, f'{prefix}*'))\<close>. \<^verbatim>\<open>glob\<close> splits the pattern with
  \<^verbatim>\<open>os.path.split\<close>, matches the names of the directory part against the last part,
  and returns \<^verbatim>\<open>os.path.join\<close> of the directory part, as the split left it, with each
  matching name, in listing order. So a directory written with several trailing
  separators comes back with one: for \<open>d//\<close> the paths are \<open>d/name\<close>. When the pattern
  does not start with a dot (here: when \<open>prefix\<close> is empty) names that start with a dot
  are left out.

  The model is \<^verbatim>\<open>glob\<close> for a prefix and a directory with none of the pattern characters
  \<^verbatim>\<open>*?[\<close> (\<open>has_magic\<close>) and a prefix without a separator: then the directory part of the
  pattern names \<open>ckpt_dir\<close> and the last part matches the names that start with
  \<open>prefix\<close>. With pattern characters \<^verbatim>\<open>glob\<close> matches other names and other
  directories, which the model does not follow; no theorem below is stated at such an
  input without saying so.
\<close>

definition glob_matches :: "string \<Rightarrow> string \<Rightarrow> bool" where
  "glob_matches prefix name =
     (if prefix = [] then (case name of [] \<Rightarrow> True | c # _ \<Rightarrow> c \<noteq> CHR ''.'')
      else startswith name prefix)"

definition glob :: "'b directory \<Rightarrow> string \<Rightarrow> string \<Rightarrow> string list" where
  "glob d ckpt_dir prefix =
     map (path_join (fst (posix_split (path_join ckpt_dir (prefix @ ''*'')))))
       (filter (glob_matches prefix) (listdir d))"

text \<open>
  Reading the file at a path. The operating system reads a run of separators as one, so
  the file is the one of the directory whose joined path is the given path up to that.
  (Components \<open>.\<close> and \<open>..\<close> and links are not followed.)
\<close>

fun collapse_seps :: "string \<Rightarrow> string" where
  "collapse_seps [] = []"
| "collapse_seps [c] = [c]"
| "collapse_seps (a # b # r) =
     (if a = CHR ''/'' \<and> b = CHR ''/'' then collapse_seps (b # r)
      else a # collapse_seps (b # r))"

definition open_rb :: "'b directory \<Rightarrow> string \<Rightarrow> string \<Rightarrow> error + 'b" where
  "open_rb d ckpt_dir path =
     (case map_of (map (\<lambda>(name, b). (collapse_seps (path_join ckpt_dir name), b)) d)
             (collapse_seps path) of
        None \<Rightarrow> Inl FileNotFoundError
      | Some b \<Rightarrow> Inr b)"

subsection \<open>Steps and paths\<close>

text \<open>
  A step is a Python \<open>int\<close> (the source also allows a float, which is not modelled);
  \<^verbatim>\<open>f'{prefix}{step}'\<close> renders it with \<open>str\<close>: decimal digits, no leading zero, a minus
  sign when negative.
\<close>

fun str_nat :: "nat \<Rightarrow> string" where
  "str_nat n =
     (if n < 10 then [char_of (48 + n)]
      else str_nat (n div 10) @ [char_of (48 + n mod 10)])"

declare str_nat.simps [simp del]

definition str_int :: "int \<Rightarrow> string" where
  "str_int i = (if i < 0 then CHR ''-'' # str_nat (nat (- i)) else str_nat (nat i))"

text \<open>\<open>_checkpoint_path\<close>; \<open>step\<close> is the text \<^verbatim>\<open>{step}\<close> renders.\<close>

definition checkpoint_path :: "string \<Rightarrow> string \<Rightarrow> string \<Rightarrow> string" where
  "checkpoint_path ckpt_dir step prefix = path_join ckpt_dir (prefix @ step)"

text \<open>Python's \<^verbatim>\<open>xs[:j]\<close>: a negative \<open>j\<close> counts from the end.\<close>

definition slice_to :: "'a list \<Rightarrow> int \<Rightarrow> 'a list" where
  "slice_to xs j =
     (if j < 0 then take (nat (int (length xs) + j)) xs else take (nat j) xs)"

subsection \<open>save\_checkpoint\<close>

text \<open>
  The serializer is a parameter: \<open>dumps\<close> is what \<^verbatim>\<open>pickle.dump\<close> writes for a target and
  \<open>loads\<close> what \<^verbatim>\<open>pickle.load\<close> makes of a content.

  The function runs in four stages, each a definition of its own: the write of the
  temporary file, the test of the target path (with its removal, or
  \<open>FileExistsError\<close>), the rename, and the removal of old files. A stage that raises
  leaves the directory as the stages before it made it.
\<close>

definition tmp_name :: "string \<Rightarrow> string" where
  "tmp_name prefix = prefix @ ''tmp''"

definition ckpt_name :: "string \<Rightarrow> int \<Rightarrow> string" where
  "ckpt_name prefix step = prefix @ str_int step"

definition save_tmp_written :: "('t \<Rightarrow> 'b) \<Rightarrow> 'b directory \<Rightarrow> 't \<Rightarrow> string \<Rightarrow> 'b directory" where
  "save_tmp_written dumps d target prefix = write_file d (tmp_name prefix) (dumps target)"

definition save_target_cleared :: "'b directory \<Rightarrow> string \<Rightarrow> bool \<Rightarrow> error + 'b directory" where
  "save_target_cleared d name overwrite =
     (if exists d name then
        (if overwrite then os_remove d name else Inl FileExistsError)
      else Inr d)"

text \<open>\<open>checkpoint_files\<close> and \<open>old_ckpts\<close> of the cleanup.\<close>

definition checkpoint_files :: "'b directory \<Rightarrow> string \<Rightarrow> string list" where
  "checkpoint_files d prefix = sort (filter (\<lambda>p. startswith p prefix) (listdir d))"

definition old_ckpts :: "'b directory \<Rightarrow> string \<Rightarrow> int \<Rightarrow> string list" where
  "old_ckpts d prefix keep =
     (if int (length (checkpoint_files d prefix)) > keep
      then slice_to (checkpoint_files d prefix) (- keep) else [])"

fun remove_each :: "'b directory \<Rightarrow> string list \<Rightarrow> (error + unit) \<times> 'b directory" where
  "remove_each d [] = (Inr (), d)"
| "remove_each d (p # ps) =
     (case os_remove d p of
        Inl e \<Rightarrow> (Inl e, d)
      | Inr d' \<Rightarrow> remove_each d' ps)"

definition save_cleanup :: "'b directory \<Rightarrow> string \<Rightarrow> int \<Rightarrow> (error + unit) \<times> 'b directory" where
  "save_cleanup d prefix keep = remove_each d (old_ckpts d prefix keep)"

text \<open>The stages up to the rename: the directory after it, or the exception with the
  directory as it was left.\<close>

definition save_renamed ::
  "('t \<Rightarrow> 'b) \<Rightarrow> 'b directory \<Rightarrow> 't \<Rightarrow> int \<Rightarrow> string \<Rightarrow> bool
     \<Rightarrow> (error + unit) \<times> 'b directory" where
  "save_renamed dumps d target step prefix overwrite =
     (let ckpt_tmp = tmp_name prefix;
          ckpt = ckpt_name prefix step;
          d1 = save_tmp_written dumps d target prefix
      in case save_target_cleared d1 ckpt overwrite of
           Inl e \<Rightarrow> (Inl e, d1)
         | Inr d2 \<Rightarrow>
             (case shutil_move d2 ckpt_tmp ckpt of
                Inl e \<Rightarrow> (Inl e, d2)
              | Inr d3 \<Rightarrow> (Inr (), d3)))"

definition save_checkpoint ::
  "('t \<Rightarrow> 'b) \<Rightarrow> 'b directory \<Rightarrow> string \<Rightarrow> 't \<Rightarrow> int \<Rightarrow> string \<Rightarrow> int \<Rightarrow> bool
     \<Rightarrow> (error + string) \<times> 'b directory" where
  "save_checkpoint dumps d ckpt_dir target step prefix keep overwrite =
     (case save_renamed dumps d target step prefix overwrite of
        (Inl e, d') \<Rightarrow> (Inl e, d')
      | (Inr u, d3) \<Rightarrow>
          (case save_cleanup d3 prefix keep of
             (Inl e, d4) \<Rightarrow> (Inl e, d4)
           | (Inr u', d4) \<Rightarrow> (Inr (path_join ckpt_dir (ckpt_name prefix step)), d4)))"

text \<open>
  The states the directory is in before the rename, in order: as found, with the
  temporary file written, and with the target path tested (and removed, when it was there
  and \<open>overwrite\<close> is set). A call interrupted before the rename leaves one of them.
\<close>

definition save_states_before_rename ::
  "('t \<Rightarrow> 'b) \<Rightarrow> 'b directory \<Rightarrow> 't \<Rightarrow> int \<Rightarrow> string \<Rightarrow> bool \<Rightarrow> 'b directory list" where
  "save_states_before_rename dumps d target step prefix overwrite =
     (let d1 = save_tmp_written dumps d target prefix
      in d # d1 #
         (case save_target_cleared d1 (ckpt_name prefix step) overwrite of
            Inl e \<Rightarrow> []
          | Inr d2 \<Rightarrow> [d2]))"

text \<open>\<open>N\<close> calls in a row, each on the directory the call before left; the first
  exception ends the run. Every call has its own target and step.\<close>

fun save_all ::
  "('t \<Rightarrow> 'b) \<Rightarrow> 'b directory \<Rightarrow> string \<Rightarrow> ('t \<times> int) list \<Rightarrow> string \<Rightarrow> int \<Rightarrow> bool
     \<Rightarrow> (error + unit) \<times> 'b directory" where
  "save_all dumps d ckpt_dir [] prefix keep overwrite = (Inr (), d)"
| "save_all dumps d ckpt_dir ((target, step) # rest) prefix keep overwrite =
     (case save_checkpoint dumps d ckpt_dir target step prefix keep overwrite of
        (Inl e, d') \<Rightarrow> (Inl e, d')
      | (Inr p, d') \<Rightarrow> save_all dumps d' ckpt_dir rest prefix keep overwrite)"

subsection \<open>latest\_checkpoint\_path and the restore functions\<close>

definition latest_checkpoint_path :: "'b directory \<Rightarrow> string \<Rightarrow> string \<Rightarrow> error + string option" where
  "latest_checkpoint_path d ckpt_dir prefix =
     (case natural_sort (glob d ckpt_dir prefix) True of
        Inl e \<Rightarrow> Inl e
      | Inr sorted_files \<Rightarrow>
          (let ckpt_tmp_path = checkpoint_path ckpt_dir ''tmp'' prefix;
               files = filter (\<lambda>f. f \<noteq> ckpt_tmp_path) sorted_files
           in Inr (if files = [] then None else Some (last files))))"

text \<open>\<open>restore_from_path\<close> takes \<open>target\<close> and does not use it.\<close>

definition restore_from_path ::
  "('b \<Rightarrow> error + 't) \<Rightarrow> 'b directory \<Rightarrow> string \<Rightarrow> string \<Rightarrow> 't \<Rightarrow> error + 't" where
  "restore_from_path loads d ckpt_dir ckpt_path target =
     (case open_rb d ckpt_dir ckpt_path of
        Inl e \<Rightarrow> Inl e
      | Inr b \<Rightarrow> loads b)"

text \<open>\<^verbatim>\<open>if step:\<close> is Python's truth test: \<open>None\<close> and \<open>0\<close> are both false.\<close>

definition truthy :: "int option \<Rightarrow> bool" where
  "truthy step = (case step of None \<Rightarrow> False | Some i \<Rightarrow> i \<noteq> 0)"

definition restore_checkpoint ::
  "('b \<Rightarrow> error + 't) \<Rightarrow> 'b directory \<Rightarrow> string \<Rightarrow> 't \<Rightarrow> int option \<Rightarrow> string \<Rightarrow> error + 't" where
  "restore_checkpoint loads d ckpt_dir target step prefix =
     (if truthy step then
        (if \<not> exists d (ckpt_name prefix (the step)) then Inl ValueError
         else restore_from_path loads d ckpt_dir
                (checkpoint_path ckpt_dir (str_int (the step)) prefix) target)
      else
        (case latest_checkpoint_path d ckpt_dir prefix of
           Inl e \<Rightarrow> Inl e
         | Inr None \<Rightarrow> Inr target
         | Inr (Some ckpt_path) \<Rightarrow> restore_from_path loads d ckpt_dir ckpt_path target))"

subsection \<open>The polling loop and the iterator\<close>

text \<open>
  What the loop sees of the outside is a \<open>world\<close>: for the \<open>i\<close>-th poll, the content of
  the directory at that poll and the reading \<^verbatim>\<open>time.time()\<close> gives in it, and the
  reading a call of \<open>wait_for_new_checkpoint\<close> that starts with that poll takes before
  its loop. Readings are numbers; \<^verbatim>\<open>time.sleep\<close> only lets the next poll see a later
  world. The loop may run forever: \<open>None\<close> is the call that never returns,
  \<open>Some (Inl e)\<close> one that raises, \<open>Some (Inr (r, i))\<close> one that returns \<open>r\<close> from
  the \<open>i\<close>-th poll.
\<close>

record 'b world =
  dir_at :: "nat \<Rightarrow> 'b directory"
  time_at :: "nat \<Rightarrow> rat"
  start_time_at :: "nat \<Rightarrow> rat"

text \<open>\<^verbatim>\<open>stop_time is not None and time.time() + seconds_to_sleep > stop_time\<close>\<close>

definition deadline_passed :: "rat option \<Rightarrow> rat \<Rightarrow> rat \<Rightarrow> bool" where
  "deadline_passed stop_time now seconds_to_sleep =
     (case stop_time of None \<Rightarrow> False | Some t \<Rightarrow> now + seconds_to_sleep > t)"

partial_function (option) wait_loop ::
  "'b world \<Rightarrow> string \<Rightarrow> string option \<Rightarrow> rat \<Rightarrow> rat option \<Rightarrow> string \<Rightarrow> nat
     \<Rightarrow> (error + string option \<times> nat) option" where
  "wait_loop w ckpt_dir last_ckpt_path seconds_to_sleep stop_time prefix i =
     (case latest_checkpoint_path (dir_at w i) ckpt_dir prefix of
        Inl e \<Rightarrow> Some (Inl e)
      | Inr ckpt_path \<Rightarrow>
          if ckpt_path = None \<or> ckpt_path = last_ckpt_path then
            (if deadline_passed stop_time (time_at w i) seconds_to_sleep
             then Some (Inr (None, i))
             else wait_loop w ckpt_dir last_ckpt_path seconds_to_sleep stop_time prefix (Suc i))
          else Some (Inr (ckpt_path, i)))"

definition wait_for_new_checkpoint ::
  "'b world \<Rightarrow> string \<Rightarrow> string option \<Rightarrow> rat \<Rightarrow> rat option \<Rightarrow> string \<Rightarrow> nat
     \<Rightarrow> (error + string option \<times> nat) option" where
  "wait_for_new_checkpoint w ckpt_dir last_ckpt_path seconds_to_sleep timeout prefix i =
     (let stop_time = (case timeout of None \<Rightarrow> None | Some t \<Rightarrow> Some (start_time_at w i + t))
      in wait_loop w ckpt_dir last_ckpt_path seconds_to_sleep stop_time prefix i)"

text \<open>A poll that finds nothing new: no checkpoint, or the one last seen.\<close>

definition nothing_new :: "'b world \<Rightarrow> string \<Rightarrow> string \<Rightarrow> string option \<Rightarrow> nat \<Rightarrow> bool" where
  "nothing_new w ckpt_dir prefix last_ckpt_path k =
     (latest_checkpoint_path (dir_at w k) ckpt_dir prefix = Inr None
      \<or> latest_checkpoint_path (dir_at w k) ckpt_dir prefix = Inr last_ckpt_path)"

text \<open>
  What a return of the loop that started with the \<open>i\<close>-th poll can be: a value, never an
  exception, from a poll \<open>j\<close> not before the \<open>i\<close>-th; \<open>None\<close> from a poll that found
  nothing new and whose deadline had passed; or a path that the poll found and that is
  not the one last seen.
\<close>

definition wait_result ::
  "'b world \<Rightarrow> string \<Rightarrow> string option \<Rightarrow> rat \<Rightarrow> rat option \<Rightarrow> string \<Rightarrow> nat
     \<Rightarrow> (error + string option \<times> nat) \<Rightarrow> bool" where
  "wait_result w ckpt_dir lastp sleep stop prefix i y =
     (\<exists>r j. y = Inr (r, j) \<and> i \<le> j
           \<and> (r = None \<longrightarrow> nothing_new w ckpt_dir prefix lastp j
                              \<and> deadline_passed stop (time_at w j) sleep)
           \<and> (\<forall>p. r = Some p \<longrightarrow> Some p \<noteq> lastp
                              \<and> latest_checkpoint_path (dir_at w j) ckpt_dir prefix = Inr (Some p)))"

text \<open>
  \<open>checkpoints_iterator\<close> is a generator. One resumption of it, from the cursor
  \<open>ckpt_path\<close> and the \<open>i\<close>-th poll, either ends the sequence (the \<^verbatim>\<open>return\<close> after a
  timeout), raises, or yields a value, with the new cursor and the poll that found it;
  the next resumption starts with the poll after. The value is the path when \<open>target\<close>
  is \<open>None\<close>, else what \<open>restore_from_path\<close> returns. The iterator calls the loop with
  the default \<open>seconds_to_sleep = 1\<close>.
\<close>

datatype 't event = StopIteration | Raise error | Yield "string + 't" string nat

definition checkpoints_iterator_next ::
  "('b \<Rightarrow> error + 't) \<Rightarrow> 'b world \<Rightarrow> string \<Rightarrow> 't option \<Rightarrow> rat option \<Rightarrow> string
     \<Rightarrow> string option \<Rightarrow> nat \<Rightarrow> 't event option" where
  "checkpoints_iterator_next loads w ckpt_dir target timeout prefix ckpt_path i =
     (case wait_for_new_checkpoint w ckpt_dir ckpt_path 1 timeout prefix i of
        None \<Rightarrow> None
      | Some (Inl e) \<Rightarrow> Some (Raise e)
      | Some (Inr (None, j)) \<Rightarrow> Some StopIteration
      | Some (Inr (Some new_ckpt_path, j)) \<Rightarrow>
          (case target of
             None \<Rightarrow> Some (Yield (Inl new_ckpt_path) new_ckpt_path j)
           | Some t \<Rightarrow>
               (case restore_from_path loads (dir_at w j) ckpt_dir new_ckpt_path t of
                  Inl e \<Rightarrow> Some (Raise e)
                | Inr v \<Rightarrow> Some (Yield (Inr v) new_ckpt_path j))))"

section \<open>Facts about the model\<close>

subsection \<open>Names\<close>

lemma str_nat_digits: "c \<in> set (str_nat n) \<Longrightarrow> is_digit c"
proof (induction n arbitrary: c rule: str_nat.induct)
  case (1 n)
  have dg: "is_digit (char_of (48 + k))" if "k < 10" for k :: nat
    using that by (simp add: is_digit_def less_eq_char_def)
  show ?case
  proof (cases "n < 10")
    case True
    with 1 dg [of n] show ?thesis by (simp add: str_nat.simps [of n])
  next
    case False
    with 1 dg [of "n mod 10"] show ?thesis
      by (auto simp: str_nat.simps [of n])
  qed
qed

lemma str_nat_nonempty: "str_nat n \<noteq> []"
  by (subst str_nat.simps) simp

lemma str_int_not_tmp: "str_int step \<noteq> ''tmp''"
proof
  assume a: "str_int step = ''tmp''"
  show False
  proof (cases "step < 0")
    case True
    with a show ?thesis by (simp add: str_int_def)
  next
    case False
    with a have "CHR ''t'' \<in> set (str_nat (nat step))" by (simp add: str_int_def)
    then have "is_digit CHR ''t''" by (rule str_nat_digits)
    then show ?thesis by (simp add: is_digit_def)
  qed
qed

lemma ckpt_name_not_tmp: "ckpt_name prefix step \<noteq> tmp_name prefix"
  using str_int_not_tmp [of step] by (simp add: ckpt_name_def tmp_name_def)

subsection \<open>Directory operations and the stages of save\_checkpoint\<close>

lemma map_of_write_file: "map_of (write_file d n b) = (map_of d)(n \<mapsto> b)"
  by (simp add: write_file_def update_conv')

lemma os_remove_Inr: "os_remove d n = Inr d' \<Longrightarrow> map_of d' = (map_of d)(n := None)"
  by (auto simp: os_remove_def delete_conv' split: if_splits)

lemma shutil_move_Inr:
  "shutil_move d src dst = Inr d' \<Longrightarrow>
     map_of d' = ((map_of d)(src := None))(dst := map_of d src)"
  by (auto simp: shutil_move_def update_conv' delete_conv' split: option.splits)

lemma exists_tmp_written:
  "exists (save_tmp_written dumps d target prefix) (ckpt_name prefix step) = exists d (ckpt_name prefix step)"
  using ckpt_name_not_tmp [of prefix step]
  by (simp add: exists_def save_tmp_written_def map_of_write_file)

lemma save_renamed_exists_error:
  "exists d (ckpt_name prefix step) \<Longrightarrow> \<not> overwrite \<Longrightarrow>
     save_renamed dumps d target step prefix overwrite =
       (Inl FileExistsError, save_tmp_written dumps d target prefix)"
  by (simp add: save_renamed_def Let_def save_target_cleared_def exists_tmp_written)

lemma save_renamed_error_cases:
  "save_renamed dumps d target step prefix overwrite = (Inl e, d') \<Longrightarrow>
     (e = FileExistsError \<and> exists d (ckpt_name prefix step) \<and> \<not> overwrite
        \<and> d' = save_tmp_written dumps d target prefix)
     \<or> e = FileNotFoundError"
  by (auto simp: save_renamed_def Let_def save_target_cleared_def exists_tmp_written
        os_remove_def shutil_move_def split: if_splits sum.splits option.splits)

lemma remove_each_error: "remove_each d ps = (Inl e, d') \<Longrightarrow> e = FileNotFoundError"
  by (induction ps arbitrary: d) (auto simp: os_remove_def split: if_splits)

lemma save_checkpoint_exists_error_iff:
  "fst (save_checkpoint dumps d ckpt_dir target step prefix keep overwrite) = Inl FileExistsError
     \<longleftrightarrow> exists d (ckpt_name prefix step) \<and> \<not> overwrite"
proof
  assume a: "fst (save_checkpoint dumps d ckpt_dir target step prefix keep overwrite) = Inl FileExistsError"
  show "exists d (ckpt_name prefix step) \<and> \<not> overwrite"
  proof (cases "save_renamed dumps d target step prefix overwrite")
    case (Pair r d')
    show ?thesis
    proof (cases r)
      case (Inl e)
      with a Pair have "e = FileExistsError" by (simp add: save_checkpoint_def)
      with save_renamed_error_cases [of dumps d target step prefix overwrite e d'] Pair Inl
      show ?thesis by auto
    next
      case (Inr u)
      with a Pair show ?thesis
        by (auto simp: save_checkpoint_def save_cleanup_def split: prod.splits sum.splits
            dest: remove_each_error)
    qed
  qed
next
  assume "exists d (ckpt_name prefix step) \<and> \<not> overwrite"
  then show "fst (save_checkpoint dumps d ckpt_dir target step prefix keep overwrite) = Inl FileExistsError"
    by (simp add: save_checkpoint_def save_renamed_exists_error)
qed

lemma exists_iff: "exists d n \<longleftrightarrow> n \<in> set (listdir d)"
  by (simp add: exists_def listdir_def map_of_eq_None_iff)

lemma listdir_write_file:
  "listdir (write_file d n b) = (if n \<in> set (listdir d) then listdir d else listdir d @ [n])"
  by (simp add: listdir_def write_file_def update_keys)

lemma distinct_write_file: "distinct (listdir d) \<Longrightarrow> distinct (listdir (write_file d n b))"
  by (simp add: listdir_write_file)

lemma os_remove_listdir:
  "os_remove d n = Inr d' \<Longrightarrow> listdir d' = removeAll n (listdir d)"
  by (auto simp: os_remove_def listdir_def delete_keys split: if_splits)

lemma os_remove_exists: "n \<in> set (listdir d) \<Longrightarrow> \<exists>d'. os_remove d n = Inr d'"
  by (simp add: os_remove_def exists_iff)

lemma shutil_move_listdir:
  "shutil_move d src dst = Inr d' \<Longrightarrow>
     set (listdir d') = insert dst (set (listdir d) - {src})
     \<and> (distinct (listdir d) \<longrightarrow> distinct (listdir d'))"
proof -
  assume a: "shutil_move d src dst = Inr d'"
  then obtain b where d': "d' = AList.update dst b (AList.delete src d)"
    by (auto simp: shutil_move_def split: option.splits)
  have "set (listdir d') = {dst} \<union> fst ` set (AList.delete src d)"
    unfolding d' listdir_def set_map by (rule dom_update)
  also have "fst ` set (AList.delete src d) = set (removeAll src (map fst d))"
    using delete_keys [of src d] by (metis set_map)
  finally have s: "set (listdir d') = insert dst (set (listdir d) - {src})"
    by (auto simp: listdir_def)
  have "distinct (listdir d) \<longrightarrow> distinct (listdir d')"
    unfolding d' listdir_def by (simp add: distinct_update distinct_delete)
  with s show ?thesis by blast
qed

lemma remove_each_ok:
  "distinct ps \<Longrightarrow> set ps \<subseteq> set (listdir d) \<Longrightarrow>
     \<exists>d'. remove_each d ps = (Inr (), d')
       \<and> listdir d' = filter (\<lambda>n. n \<notin> set ps) (listdir d)
       \<and> map_of d' = (\<lambda>n. if n \<in> set ps then None else map_of d n)"
proof (induction ps arbitrary: d)
  case Nil
  then show ?case by simp
next
  case (Cons p ps)
  from Cons.prems obtain d1 where r: "os_remove d p = Inr d1"
    using os_remove_exists [of p d] by auto
  have l1: "listdir d1 = removeAll p (listdir d)" by (rule os_remove_listdir [OF r])
  have m1: "map_of d1 = (map_of d)(p := None)" by (rule os_remove_Inr [OF r])
  from Cons.prems l1 have "distinct ps" and "set ps \<subseteq> set (listdir d1)" by auto
  from Cons.IH [OF this] obtain d' where
    e: "remove_each d1 ps = (Inr (), d')"
    and l: "listdir d' = filter (\<lambda>n. n \<notin> set ps) (listdir d1)"
    and m: "map_of d' = (\<lambda>n. if n \<in> set ps then None else map_of d1 n)" by blast
  have "filter (\<lambda>n. n \<notin> set ps) (removeAll p xs)
      = filter (\<lambda>n. n \<notin> set (p # ps)) xs" for xs
    by (induction xs) auto
  with r e l m l1 m1 show ?case by (auto simp: fun_eq_iff)
qed

lemma distinct_checkpoint_files:
  "distinct (listdir d) \<Longrightarrow> distinct (checkpoint_files d prefix)"
  by (simp add: checkpoint_files_def)

lemma set_checkpoint_files:
  "set (checkpoint_files d prefix) = {n \<in> set (listdir d). startswith n prefix}"
  by (auto simp: checkpoint_files_def)

lemma slice_to_take: "\<exists>k. slice_to xs j = take k xs"
  by (auto simp: slice_to_def)

lemma old_ckpts_subset: "set (old_ckpts d prefix keep) \<subseteq> set (checkpoint_files d prefix)"
  using slice_to_take [of "checkpoint_files d prefix" "- keep"]
  by (auto simp: old_ckpts_def dest: in_set_takeD)

lemma distinct_old_ckpts:
  "distinct (listdir d) \<Longrightarrow> distinct (old_ckpts d prefix keep)"
  using slice_to_take [of "checkpoint_files d prefix" "- keep"] distinct_checkpoint_files [of d prefix]
  by (auto simp: old_ckpts_def)

lemma save_cleanup_ok:
  assumes "distinct (listdir d)"
  shows "\<exists>d'. save_cleanup d prefix keep = (Inr (), d')
       \<and> listdir d' = filter (\<lambda>n. n \<notin> set (old_ckpts d prefix keep)) (listdir d)
       \<and> map_of d' = (\<lambda>n. if n \<in> set (old_ckpts d prefix keep) then None else map_of d n)"
proof -
  have "set (old_ckpts d prefix keep) \<subseteq> set (listdir d)"
    using old_ckpts_subset [of d prefix keep] set_checkpoint_files [of d prefix] by auto
  from remove_each_ok [OF distinct_old_ckpts [OF assms] this] show ?thesis
    by (simp add: save_cleanup_def)
qed

text \<open>The stages up to the rename succeed unless the target is there without overwrite.\<close>

lemma save_renamed_ok:
  assumes "\<not> (exists d (ckpt_name prefix step) \<and> \<not> overwrite)"
  shows "\<exists>d3. save_renamed dumps d target step prefix overwrite = (Inr (), d3)
    \<and> map_of d3 = ((map_of d)(tmp_name prefix := None))(ckpt_name prefix step \<mapsto> dumps target)
    \<and> set (listdir d3) = insert (ckpt_name prefix step) (set (listdir d) - {tmp_name prefix})
    \<and> (distinct (listdir d) \<longrightarrow> distinct (listdir d3))"
proof -
  let ?tmp = "tmp_name prefix" and ?ck = "ckpt_name prefix step"
  let ?d1 = "save_tmp_written dumps d target prefix"
  have ne: "?ck \<noteq> ?tmp" by (rule ckpt_name_not_tmp)
  have m1: "map_of ?d1 = (map_of d)(?tmp \<mapsto> dumps target)"
    by (simp add: save_tmp_written_def map_of_write_file)
  have l1: "set (listdir ?d1) = insert ?tmp (set (listdir d))"
    by (auto simp: save_tmp_written_def listdir_write_file)
  have dd1: "distinct (listdir d) \<Longrightarrow> distinct (listdir ?d1)"
    by (simp add: save_tmp_written_def distinct_write_file)
  obtain d2 where c: "save_target_cleared ?d1 ?ck overwrite = Inr d2"
    and m2: "map_of d2 = (map_of ?d1)(?ck := None)"
    and l2: "set (listdir d2) = set (listdir ?d1) - {?ck}"
    and dd2: "distinct (listdir ?d1) \<Longrightarrow> distinct (listdir d2)"
  proof (cases "exists ?d1 ?ck")
    case True
    with assms have ov: overwrite by (simp add: exists_tmp_written)
    from True obtain d2 where r: "os_remove ?d1 ?ck = Inr d2"
      using os_remove_exists [of ?ck ?d1] by (auto simp: exists_iff)
    show ?thesis
    proof (rule that [of d2])
      show "save_target_cleared ?d1 ?ck overwrite = Inr d2"
        using True ov r by (simp add: save_target_cleared_def)
      show "map_of d2 = (map_of ?d1)(?ck := None)" by (rule os_remove_Inr [OF r])
      show "set (listdir d2) = set (listdir ?d1) - {?ck}"
        by (simp add: os_remove_listdir [OF r])
      show "distinct (listdir ?d1) \<Longrightarrow> distinct (listdir d2)"
        by (simp add: os_remove_listdir [OF r] distinct_removeAll)
    qed
  next
    case False
    show ?thesis
    proof (rule that [of ?d1])
      show "save_target_cleared ?d1 ?ck overwrite = Inr ?d1"
        using False by (simp add: save_target_cleared_def)
      from False have n: "map_of ?d1 ?ck = None" by (simp add: exists_def)
      then show "map_of ?d1 = (map_of ?d1)(?ck := None)" by (auto simp: fun_eq_iff)
      from False show "set (listdir ?d1) = set (listdir ?d1) - {?ck}"
        by (auto simp: exists_iff)
    qed
  qed
  from m1 m2 ne have t2: "map_of d2 ?tmp = Some (dumps target)" by simp
  then obtain d3 where mv: "shutil_move d2 ?tmp ?ck = Inr d3"
    by (simp add: shutil_move_def)
  from shutil_move_Inr [OF mv] t2 m2 m1 ne
  have m3: "map_of d3 = ((map_of d)(?tmp := None))(?ck \<mapsto> dumps target)"
    by (auto simp: fun_eq_iff)
  from shutil_move_listdir [OF mv] l2 l1 ne
  have l3: "set (listdir d3) = insert ?ck (set (listdir d) - {?tmp})" by auto
  from shutil_move_listdir [OF mv] dd2 dd1
  have dd3: "distinct (listdir d) \<longrightarrow> distinct (listdir d3)" by blast
  from c mv have "save_renamed dumps d target step prefix overwrite = (Inr (), d3)"
    by (simp add: save_renamed_def Let_def)
  with m3 l3 dd3 show ?thesis by blast
qed

lemma save_checkpoint_ok:
  assumes "distinct (listdir d)" and "\<not> (exists d (ckpt_name prefix step) \<and> \<not> overwrite)"
  shows "\<exists>d3 d4. save_renamed dumps d target step prefix overwrite = (Inr (), d3)
    \<and> distinct (listdir d3)
    \<and> save_cleanup d3 prefix keep = (Inr (), d4)
    \<and> save_checkpoint dumps d ckpt_dir target step prefix keep overwrite
         = (Inr (path_join ckpt_dir (ckpt_name prefix step)), d4)"
proof -
  from save_renamed_ok [OF assms(2), of dumps target] assms(1) obtain d3 where
    r: "save_renamed dumps d target step prefix overwrite = (Inr (), d3)"
    and dd: "distinct (listdir d3)" by blast
  from save_cleanup_ok [OF dd, of prefix keep] obtain d4 where
    c: "save_cleanup d3 prefix keep = (Inr (), d4)" by blast
  from r c have "save_checkpoint dumps d ckpt_dir target step prefix keep overwrite
         = (Inr (path_join ckpt_dir (ckpt_name prefix step)), d4)"
    by (simp add: save_checkpoint_def)
  with r dd c show ?thesis by blast
qed

subsection \<open>Restoring\<close>

lemma latest_checkpoint_path_empty: "latest_checkpoint_path [] ckpt_dir prefix = Inr None"
  by (simp add: latest_checkpoint_path_def glob_def listdir_def natural_sort_def)

text \<open>A step other than 0 is strict, and no step at all is lenient.\<close>

lemma restore_checkpoint_strict:
  "step \<noteq> 0 \<Longrightarrow> \<not> exists d (ckpt_name prefix step) \<Longrightarrow>
     restore_checkpoint loads d ckpt_dir target (Some step) prefix = Inl ValueError"
  by (simp add: restore_checkpoint_def truthy_def)

lemma restore_checkpoint_lenient:
  "latest_checkpoint_path d ckpt_dir prefix = Inr None \<Longrightarrow>
     restore_checkpoint loads d ckpt_dir target None prefix = Inr target"
  by (simp add: restore_checkpoint_def truthy_def)

subsection \<open>A sign in front of a number, without \<open>signed\<close>\<close>

lemma match_mantissa_not_sign:
  assumes "match_mantissa s \<noteq> None"
  shows "(case s of [] \<Rightarrow> [] | c # _ \<Rightarrow> if is_sign c then [c] else []) = []"
proof (cases s)
  case Nil
  then show ?thesis by simp
next
  case (Cons c t)
  have "\<not> is_sign c"
  proof
    assume sg: "is_sign c"
    then have "\<not> is_digit c" and "c \<noteq> CHR ''.''"
      by (auto simp: is_sign_def is_digit_def)
    with Cons have "match_mantissa s = None"
      by (simp add: match_mantissa_def)
    with assms show False by simp
  qed
  with Cons show ?thesis by simp
qed

lemma match_float_after_sign:
  assumes "is_sign c" and "match_mantissa s \<noteq> None"
  shows "\<exists>num rest. match_float (c # s) = Some ([c], num, rest)
            \<and> match_float s = Some ([], num, rest)"
proof -
  from assms(2) obtain m r where m: "match_mantissa s = Some (m, r)" by auto
  obtain e r' where e: "match_exponent r = (e, r')" by (cases "match_exponent r")
  from assms(1) m e have 1: "match_float (c # s) = Some ([c], m @ e, r')"
    by (simp add: match_float_def)
  from match_mantissa_not_sign [OF assms(2)] m e
  have 2: "match_float s = Some ([], m @ e, r')"
    by (simp add: match_float_def)
  from 1 2 show ?thesis by blast
qed

lemma re_split_unsigned_drops_sign:
  assumes "is_sign c" and "match_mantissa s \<noteq> None"
  shows "re_split False lit (c # s) = re_split False lit s"
proof -
  from match_float_after_sign [OF assms] obtain num rest where
    1: "match_float (c # s) = Some ([c], num, rest)" and 2: "match_float s = Some ([], num, rest)"
    by blast
  from assms(2) obtain x t where s: "s = x # t" by (cases s) (auto simp: match_mantissa_def)
  from 1 have "re_split False lit (c # s) = rev lit # num # re_split False [] rest" by simp
  moreover from 2 s have "re_split False lit s = rev lit # num # re_split False [] rest" by simp
  ultimately show ?thesis by simp
qed

subsection \<open>The matcher\<close>

text \<open>Whether the pattern matches at the start of a text depends on its first characters
  only.\<close>

lemma digit_not_sign: "is_digit c \<Longrightarrow> \<not> is_sign c"
  by (auto simp: is_digit_def is_sign_def)

lemma exp_not_digit: "is_exp c \<Longrightarrow> \<not> is_digit c \<and> c \<noteq> CHR ''.''"
  by (auto simp: is_digit_def is_exp_def)

lemma takeWhile_digits_append:
  assumes "\<forall>c \<in> set ds. is_digit c" and "e = [] \<or> \<not> is_digit (hd e)"
  shows "takeWhile is_digit (ds @ e) = ds" and "dropWhile is_digit (ds @ e) = e"
proof -
  from assms(2) have "takeWhile is_digit e = []" and "dropWhile is_digit e = e"
    by (cases e; auto)+
  with assms(1) show "takeWhile is_digit (ds @ e) = ds" and "dropWhile is_digit (ds @ e) = e"
    by simp_all
qed

lemma match_mantissa_iff:
  "match_mantissa s \<noteq> None \<longleftrightarrow>
     (case s of [] \<Rightarrow> False
      | c # t \<Rightarrow> is_digit c \<or> (c = CHR ''.'' \<and> (case t of [] \<Rightarrow> False | d # _ \<Rightarrow> is_digit d)))"
  by (cases s; cases "tl s")
     (auto simp: match_mantissa_def Let_def split: list.splits)

lemma match_mantissa_append:
  "match_mantissa a \<noteq> None \<Longrightarrow> match_mantissa (a @ b) \<noteq> None"
  unfolding match_mantissa_iff by (auto split: list.splits)

lemma match_float_iff:
  "match_float s \<noteq> None \<longleftrightarrow>
     match_mantissa (drop (length (case s of [] \<Rightarrow> [] | c # _ \<Rightarrow> if is_sign c then [c] else [])) s) \<noteq> None"
  by (auto simp: match_float_def Let_def split: option.splits prod.splits)

lemma match_float_append:
  assumes "match_float a \<noteq> None"
  shows "match_float (a @ b) \<noteq> None"
proof (cases a)
  case Nil
  with assms show ?thesis by (simp add: match_float_def match_mantissa_def)
next
  case (Cons c t)
  show ?thesis
  proof (cases "is_sign c")
    case True
    with Cons assms have "match_mantissa (drop (length [c]) (c # t)) \<noteq> None"
      unfolding match_float_iff by simp
    then have "match_mantissa t \<noteq> None" by simp
    then have "match_mantissa (t @ b) \<noteq> None" by (rule match_mantissa_append)
    with Cons True show ?thesis unfolding match_float_iff by simp
  next
    case False
    with Cons assms have "match_mantissa a \<noteq> None" unfolding match_float_iff by simp
    then have "match_mantissa (a @ b) \<noteq> None" by (rule match_mantissa_append)
    with Cons False show ?thesis unfolding match_float_iff by simp
  qed
qed

text \<open>The text a match covers is a match as a whole.\<close>

lemma match_exponent_whole:
  assumes "match_exponent r = (e, r')"
  shows "match_exponent e = (e, []) \<and> (e = [] \<or> is_exp (hd e))"
proof (cases "e = []")
  case True
  then show ?thesis by (simp add: match_exponent_def)
next
  case False
  with assms obtain c t where r: "r = c # t" and c: "is_exp c"
    by (cases r) (auto simp: match_exponent_def Let_def split: if_splits)
  define sg where "sg = (case t of [] \<Rightarrow> [] | d # _ \<Rightarrow> if is_sign d then [d] else [])"
  define ds where "ds = takeWhile is_digit (drop (length sg) t)"
  from assms False r c have e: "e = c # sg @ ds" and ne: "ds \<noteq> []"
    by (auto simp: match_exponent_def Let_def sg_def ds_def split: if_splits)
  have dig: "\<forall>x \<in> set ds. is_digit x" unfolding ds_def by (auto dest: set_takeWhileD)
  from ne dig have hd: "is_digit (hd ds)" by (cases ds) auto
  have sg': "(case sg @ ds of [] \<Rightarrow> [] | d # _ \<Rightarrow> if is_sign d then [d] else []) = sg"
  proof (cases "sg = []")
    case True
    with ne hd show ?thesis by (cases ds) (auto dest: digit_not_sign)
  next
    case False
    then obtain d where "sg = [d]" "is_sign d"
      unfolding sg_def by (auto split: list.splits if_splits)
    then show ?thesis by simp
  qed
  from dig have tk: "takeWhile is_digit ds = ds" and dr: "dropWhile is_digit ds = []"
    by (simp_all add: takeWhile_eq_all_conv)
  have "match_exponent (c # sg @ ds) = (c # sg @ ds, [])"
    unfolding match_exponent_def using c ne by (simp add: Let_def sg' tk dr)
  with e c show ?thesis by simp
qed

lemma match_mantissa_whole:
  assumes "match_mantissa s = Some (m, r)" and "e = [] \<or> is_exp (hd e)"
  shows "match_mantissa (m @ e) = Some (m, e)"
proof -
  from assms(2) have e: "e = [] \<or> \<not> is_digit (hd e)" and e': "e = [] \<or> hd e \<noteq> CHR ''.''"
    using exp_not_digit by auto
  define ds where "ds = takeWhile is_digit s"
  have dig: "\<forall>x \<in> set ds. is_digit x" unfolding ds_def by (auto dest: set_takeWhileD)
  have digs: "\<forall>x \<in> set (takeWhile is_digit t). is_digit x" for t
    by (auto dest: set_takeWhileD)
  show ?thesis
  proof (cases "ds = []")
    case True
    with assms(1) obtain t where s: "s = CHR ''.'' # t" and fs: "takeWhile is_digit t \<noteq> []"
      and m: "m = CHR ''.'' # takeWhile is_digit t"
      by (cases s) (auto simp: match_mantissa_def Let_def ds_def split: if_splits)
    have nd: "\<not> is_digit CHR ''.''" by (simp add: is_digit_def)
    from takeWhile_digits_append [OF digs [of t] e] fs nd show ?thesis
      unfolding m match_mantissa_def by (simp add: Let_def)
  next
    case False
    show ?thesis
    proof (cases "dropWhile is_digit s")
      case Nil
      with assms(1) False have m: "m = ds"
        by (auto simp: match_mantissa_def Let_def ds_def)
      have tk: "takeWhile is_digit (ds @ e) = ds" and dr: "dropWhile is_digit (ds @ e) = e"
        using takeWhile_digits_append [OF dig e] by simp_all
      from False e' show ?thesis
        unfolding m match_mantissa_def by (auto simp: Let_def tk dr split: list.splits)
    next
      case (Cons c t)
      show ?thesis
      proof (cases "c = CHR ''.''")
        case True
        with assms(1) False Cons have m: "m = ds @ CHR ''.'' # takeWhile is_digit t"
          by (auto simp: match_mantissa_def Let_def ds_def)
        have nd: "\<not> is_digit CHR ''.''" by (simp add: is_digit_def)
        have 1: "takeWhile is_digit (ds @ CHR ''.'' # takeWhile is_digit t @ e) = ds"
          and 2: "dropWhile is_digit (ds @ CHR ''.'' # takeWhile is_digit t @ e)
                 = CHR ''.'' # takeWhile is_digit t @ e"
          using takeWhile_digits_append [OF dig, of "CHR ''.'' # takeWhile is_digit t @ e"] nd
          by simp_all
        from takeWhile_digits_append [OF digs [of t] e] False 1 2 show ?thesis
          unfolding m match_mantissa_def by (simp add: Let_def)
      next
        case ndot: False
        with assms(1) False Cons have m: "m = ds"
          by (auto simp: match_mantissa_def Let_def ds_def)
        have tk: "takeWhile is_digit (ds @ e) = ds" and dr: "dropWhile is_digit (ds @ e) = e"
          using takeWhile_digits_append [OF dig e] by simp_all
        from False e' show ?thesis
          unfolding m match_mantissa_def by (auto simp: Let_def tk dr split: list.splits)
      qed
    qed
  qed
qed

lemma match_mantissa_head:
  "match_mantissa s = Some (m, r) \<Longrightarrow> m \<noteq> [] \<and> \<not> is_sign (hd m)"
proof -
  assume a: "match_mantissa s = Some (m, r)"
  have nd: "\<not> is_sign CHR ''.''" by (simp add: is_sign_def)
  show ?thesis
  proof (cases "takeWhile is_digit s = []")
    case True
    with a nd show ?thesis
      by (cases s) (auto simp: match_mantissa_def Let_def split: if_splits)
  next
    case False
    then have "hd (takeWhile is_digit s) \<in> set (takeWhile is_digit s)" by simp
    then have "is_digit (hd (takeWhile is_digit s))" by (rule set_takeWhileD [THEN conjunct2])
    moreover from a False have "hd m = hd (takeWhile is_digit s) \<and> m \<noteq> []"
      by (auto simp: match_mantissa_def Let_def split: list.splits if_splits)
    ultimately show ?thesis by (auto dest: digit_not_sign)
  qed
qed

lemma match_float_whole:
  assumes "match_float s = Some (sg, num, rest)"
  shows "match_float (sg @ num) = Some (sg, num, [])" and "match_float num = Some ([], num, [])"
proof -
  define sg0 where "sg0 = (case s of [] \<Rightarrow> [] | c # _ \<Rightarrow> if is_sign c then [c] else [])"
  from assms obtain m r e where sg: "sg = sg0" and m: "match_mantissa (drop (length sg0) s) = Some (m, r)"
    and e: "match_exponent r = (e, rest)" and num: "num = m @ e"
    by (auto simp: match_float_def Let_def sg0_def split: option.splits prod.splits)
  from match_exponent_whole [OF e] have e1: "match_exponent e = (e, [])"
    and e2: "e = [] \<or> is_exp (hd e)" by simp_all
  from match_mantissa_whole [OF m e2] have mm: "match_mantissa (m @ e) = Some (m, e)" .
  from match_mantissa_head [OF m] obtain x t where mx: "m = x # t" and ns: "\<not> is_sign x"
    by (cases m) auto
  have s1: "(case m @ e of [] \<Rightarrow> [] | c # _ \<Rightarrow> if is_sign c then [c] else []) = []"
    using mx ns by simp
  have s2: "(case sg0 @ m @ e of [] \<Rightarrow> [] | c # _ \<Rightarrow> if is_sign c then [c] else []) = sg0"
  proof (cases "sg0 = []")
    case True
    with s1 show ?thesis by simp
  next
    case False
    then obtain d where "sg0 = [d]" "is_sign d"
      unfolding sg0_def by (auto split: list.splits if_splits)
    then show ?thesis by simp
  qed
  show "match_float (sg @ num) = Some (sg, num, [])"
    unfolding match_float_def sg num by (simp add: Let_def s2 mm e1)
  show "match_float num = Some ([], num, [])"
    unfolding match_float_def num by (simp add: Let_def s1 mm e1)
qed

subsection \<open>natural\_sort never raises\<close>

text \<open>The pieces of a split are text without a match at its start and whole matches in turn,
  so every key has the same shape and no comparison meets a text and a number.\<close>

lemma maybe_num_literal: "match_float s = None \<Longrightarrow> maybe_num signed s = Inr (Txt s)"
  by (simp add: maybe_num_def)

lemma maybe_num_number:
  "match_float s = Some (sg, num, []) \<Longrightarrow> maybe_num signed s = Inr (Num (float_value s))"
  by (simp add: maybe_num_def py_float_def)

lemma maybe_num_captured:
  assumes "match_float s = Some (sg, num, rest)"
  shows "\<exists>v. maybe_num signed (if signed then sg @ num else num) = Inr (Num v)"
  using match_float_whole [OF assms] by (auto simp: maybe_num_number)

lemma split_pieces_alternate:
  "lit = [] \<or> match_float (rev lit @ s) = None \<Longrightarrow>
     \<exists>k. map_err (maybe_num signed) (re_split signed lit s) = Inr k \<and> alternates False k"
proof (induction signed lit s rule: re_split.induct)
  case (1 signed lit)
  then have "match_float (rev lit) = None"
    by (auto simp: match_float_def match_mantissa_def)
  then show ?case by (simp add: maybe_num_literal)
next
  case (2 signed lit c s)
  show ?case
  proof (cases "match_float (c # s)")
    case None
    from 2(3) None have "c # lit = [] \<or> match_float (rev (c # lit) @ s) = None" by auto
    from 2(1) [OF None this] None show ?thesis by simp
  next
    case (Some m)
    then obtain sg num rest where m: "match_float (c # s) = Some (sg, num, rest)"
      by (cases m) auto
    have lit: "match_float (rev lit) = None"
    proof (cases "lit = []")
      case True
      then show ?thesis by (simp add: match_float_def match_mantissa_def)
    next
      case False
      with 2(3) have "match_float (rev lit @ c # s) = None" by simp
      with match_float_append [of "rev lit" "c # s"] show ?thesis by (cases "match_float (rev lit)") auto
    qed
    from maybe_num_captured [OF m, of signed] obtain v where
      v: "maybe_num signed (if signed then sg @ num else num) = Inr (Num v)" by blast
    from 2(2) [OF m refl refl] obtain k where
      k: "map_err (maybe_num signed) (re_split signed [] rest) = Inr k" and a: "alternates False k"
      by auto
    from m lit v k a show ?thesis by (simp add: maybe_num_literal)
  qed
qed

lemma split_keys_total: "\<exists>k. split_keys signed s = Inr k \<and> alternates False k"
  unfolding split_keys_def by (rule split_pieces_alternate) simp

lemma key_lt_total: "alternates b k1 \<Longrightarrow> alternates b k2 \<Longrightarrow> \<exists>r. key_lt k1 k2 = Inr r"
proof (induction k1 k2 arbitrary: b rule: key_lt.induct)
  case (4 x xs y ys)
  show ?case
  proof (cases "x = y")
    case True
    with 4 show ?thesis by (cases x) auto
  next
    case False
    with 4(2,3) show ?thesis by (cases x; cases y) auto
  qed
qed (blast intro: key_lt.simps)+

lemma insert_keyed_total:
  assumes "alternates False (fst x)" and "\<forall>y \<in> set ys. alternates False (fst y)"
  shows "\<exists>r. insert_keyed x ys = Inr r \<and> set r = insert x (set ys) \<and> length r = Suc (length ys)"
  using assms(2)
proof (induction ys)
  case Nil
  then show ?case by simp
next
  case (Cons y ys)
  from key_lt_total [OF assms(1), of "fst y"] Cons.prems obtain b where
    b: "key_lt (fst x) (fst y) = Inr b" by auto
  from Cons obtain r where r: "insert_keyed x ys = Inr r" "set r = insert x (set ys)"
    "length r = Suc (length ys)" by auto
  from b r show ?case by auto
qed

lemma sort_keyed_total:
  assumes "\<forall>y \<in> set acc. alternates False (fst y)" and "\<forall>y \<in> set xs. alternates False (fst y)"
  shows "\<exists>r. sort_keyed acc xs = Inr r \<and> set r = set acc \<union> set xs
            \<and> length r = length acc + length xs"
  using assms
proof (induction xs arbitrary: acc)
  case Nil
  then show ?case by simp
next
  case (Cons x xs)
  from insert_keyed_total [of x acc] Cons.prems obtain a where
    a: "insert_keyed x acc = Inr a" "set a = insert x (set acc)" "length a = Suc (length acc)"
    by auto
  with Cons.prems have "\<forall>y \<in> set a. alternates False (fst y)" by auto
  from Cons.IH [OF this] Cons.prems obtain r where
    "sort_keyed a xs = Inr r" "set r = set a \<union> set xs" "length r = length a + length xs"
    by auto
  with a show ?case by auto
qed

lemma map_err_split_keys:
  "\<exists>ks. map_err (split_keys signed) xs = Inr ks \<and> length ks = length xs
         \<and> (\<forall>k \<in> set ks. alternates False k)"
proof (induction xs)
  case Nil
  then show ?case by simp
next
  case (Cons x xs)
  from split_keys_total [of signed x] obtain k where "split_keys signed x = Inr k" "alternates False k"
    by blast
  with Cons show ?case by auto
qed

text \<open>\<open>natural_sort\<close> never raises, and returns the names it was given.\<close>

lemma natural_sort_total:
  "\<exists>r. natural_sort xs signed = Inr r \<and> set r = set xs \<and> length r = length xs"
proof -
  from map_err_split_keys [of signed xs] obtain ks where
    ks: "map_err (split_keys signed) xs = Inr ks" "length ks = length xs"
        "\<forall>k \<in> set ks. alternates False k" by blast
  then have "\<forall>y \<in> set (zip ks xs). alternates False (fst y)"
    by (auto dest: set_zip_leftD)
  from sort_keyed_total [of "[]" "zip ks xs"] this obtain r where
    r: "sort_keyed [] (zip ks xs) = Inr r" "set r = set (zip ks xs)" "length r = length (zip ks xs)"
    by auto
  from ks(2) have "snd ` set (zip ks xs) = set xs"
    by (metis map_snd_zip set_map)
  with ks r show ?thesis by (simp add: natural_sort_def)
qed

lemma latest_checkpoint_path_total:
  "\<exists>r. latest_checkpoint_path d ckpt_dir prefix = Inr r
     \<and> (\<forall>p. r = Some p \<longrightarrow> p \<in> set (glob d ckpt_dir prefix)
                          \<and> p \<noteq> checkpoint_path ckpt_dir ''tmp'' prefix)"
proof -
  from natural_sort_total [of "glob d ckpt_dir prefix" True] obtain fs where
    fs: "natural_sort (glob d ckpt_dir prefix) True = Inr fs" "set fs = set (glob d ckpt_dir prefix)"
    by blast
  let ?g = "filter (\<lambda>f. f \<noteq> checkpoint_path ckpt_dir ''tmp'' prefix) fs"
  have "?g \<noteq> [] \<Longrightarrow> last ?g \<in> set ?g" by (rule last_in_set)
  with fs show ?thesis
    by (auto simp: latest_checkpoint_path_def Let_def)
qed

subsection \<open>The polling loop\<close>

lemma wait_loop_found:
  assumes "latest_checkpoint_path (dir_at w i) ckpt_dir prefix = Inr (Some p)" and "Some p \<noteq> lastp"
  shows "wait_loop w ckpt_dir lastp sleep stop prefix i = Some (Inr (Some p, i))"
  using assms by (subst wait_loop.simps) simp

lemma wait_loop_timeout:
  assumes "nothing_new w ckpt_dir prefix lastp i" and "deadline_passed stop (time_at w i) sleep"
  shows "wait_loop w ckpt_dir lastp sleep stop prefix i = Some (Inr (None, i))"
  using assms by (subst wait_loop.simps) (auto simp: nothing_new_def)

lemma wait_loop_sleep:
  assumes "nothing_new w ckpt_dir prefix lastp i" and "\<not> deadline_passed stop (time_at w i) sleep"
  shows "wait_loop w ckpt_dir lastp sleep stop prefix i
       = wait_loop w ckpt_dir lastp sleep stop prefix (Suc i)"
  using assms by (subst wait_loop.simps) (auto simp: nothing_new_def)

lemma wait_result_later:
  "wait_result w ckpt_dir lastp sleep stop prefix (Suc i) y
     \<Longrightarrow> wait_result w ckpt_dir lastp sleep stop prefix i y"
proof -
  assume "wait_result w ckpt_dir lastp sleep stop prefix (Suc i) y"
  then obtain r j where a: "y = Inr (r, j)" and b: "Suc i \<le> j"
    and c: "r = None \<longrightarrow> nothing_new w ckpt_dir prefix lastp j
                              \<and> deadline_passed stop (time_at w j) sleep"
    and d: "\<forall>p. r = Some p \<longrightarrow> Some p \<noteq> lastp
                              \<and> latest_checkpoint_path (dir_at w j) ckpt_dir prefix = Inr (Some p)"
    unfolding wait_result_def by blast
  from b have "i \<le> j" by simp
  with a c d show ?thesis unfolding wait_result_def by blast
qed

lemma wait_loop_result:
  assumes "wait_loop w ckpt_dir lastp sleep stop prefix i = Some y"
  shows "wait_result w ckpt_dir lastp sleep stop prefix i y"
proof (rule wait_loop.raw_induct [where P = wait_result, OF _ assms])
  fix wl :: "'b world \<Rightarrow> string \<Rightarrow> string option \<Rightarrow> rat \<Rightarrow> rat option \<Rightarrow> string \<Rightarrow> nat
     \<Rightarrow> (error + string option \<times> nat) option"
  fix w ckpt_dir lastp sleep stop prefix i y
  assume IH: "\<And>w ckpt_dir lastp sleep stop prefix i y.
     wl w ckpt_dir lastp sleep stop prefix i = Some y
       \<Longrightarrow> wait_result w ckpt_dir lastp sleep stop prefix i y"
  assume body: "(case latest_checkpoint_path (dir_at w i) ckpt_dir prefix of
        Inl e \<Rightarrow> Some (Inl e)
      | Inr ckpt_path \<Rightarrow>
          if ckpt_path = None \<or> ckpt_path = lastp then
            (if deadline_passed stop (time_at w i) sleep
             then Some (Inr (None, i))
             else wl w ckpt_dir lastp sleep stop prefix (Suc i))
          else Some (Inr (ckpt_path, i))) = Some y"
  from latest_checkpoint_path_total [of "dir_at w i" ckpt_dir prefix] obtain cp where
    cp: "latest_checkpoint_path (dir_at w i) ckpt_dir prefix = Inr cp" by blast
  show "wait_result w ckpt_dir lastp sleep stop prefix i y"
  proof (cases "cp = None \<or> cp = lastp")
    case new: False
    with body have y: "y = Inr (cp, i)" unfolding cp by simp
    from new obtain p where p: "cp = Some p" by auto
    show ?thesis unfolding wait_result_def
    proof (intro exI conjI)
      show "y = Inr (cp, i)" by (rule y)
      show "i \<le> i" by simp
      show "cp = None \<longrightarrow> nothing_new w ckpt_dir prefix lastp i
                              \<and> deadline_passed stop (time_at w i) sleep" using p by simp
      show "\<forall>q. cp = Some q \<longrightarrow> Some q \<noteq> lastp
                \<and> latest_checkpoint_path (dir_at w i) ckpt_dir prefix = Inr (Some q)"
        using new cp by auto
    qed
  next
    case old: True
    then have nn: "nothing_new w ckpt_dir prefix lastp i"
      unfolding nothing_new_def cp by auto
    show ?thesis
    proof (cases "deadline_passed stop (time_at w i) sleep")
      case True
      with body old have y: "y = Inr (None, i)" unfolding cp by simp
      show ?thesis unfolding wait_result_def
      proof (intro exI conjI)
        show "y = Inr (None, i)" by (rule y)
        show "i \<le> i" by simp
        show "None = None \<longrightarrow> nothing_new w ckpt_dir prefix lastp i
                              \<and> deadline_passed stop (time_at w i) sleep" using nn True by simp
        show "\<forall>q. None = Some q \<longrightarrow> Some q \<noteq> lastp
                \<and> latest_checkpoint_path (dir_at w i) ckpt_dir prefix = Inr (Some q)"
          by simp
      qed
    next
      case False
      with body old have "wl w ckpt_dir lastp sleep stop prefix (Suc i) = Some y"
        unfolding cp by simp
      then have "wait_result w ckpt_dir lastp sleep stop prefix (Suc i) y" by (rule IH)
      then show ?thesis by (rule wait_result_later)
    qed
  qed
qed

lemma wait_loop_sleeps:
  assumes "\<And>k. i \<le> k \<Longrightarrow> k < i + n \<Longrightarrow>
             nothing_new w ckpt_dir prefix lastp k \<and> \<not> deadline_passed stop (time_at w k) sleep"
  shows "wait_loop w ckpt_dir lastp sleep stop prefix i
       = wait_loop w ckpt_dir lastp sleep stop prefix (i + n)"
  using assms
proof (induction n)
  case 0
  then show ?case by simp
next
  case (Suc n)
  then have "wait_loop w ckpt_dir lastp sleep stop prefix i
       = wait_loop w ckpt_dir lastp sleep stop prefix (i + n)" by simp
  also have "\<dots> = wait_loop w ckpt_dir lastp sleep stop prefix (Suc (i + n))"
    using Suc.prems [of "i + n"] by (intro wait_loop_sleep) simp_all
  finally show ?case by simp
qed

lemma wait_loop_forever:
  assumes "\<And>k. i \<le> k \<Longrightarrow> nothing_new w ckpt_dir prefix lastp k"
  shows "wait_loop w ckpt_dir lastp sleep None prefix i = None"
proof (cases "wait_loop w ckpt_dir lastp sleep None prefix i")
  case None
  then show ?thesis .
next
  case (Some y)
  from wait_loop_result [OF Some] obtain r j where j: "i \<le> j"
    and n: "r = None \<longrightarrow> deadline_passed None (time_at w j) sleep"
    and p: "\<forall>p. r = Some p \<longrightarrow> Some p \<noteq> lastp
                \<and> latest_checkpoint_path (dir_at w j) ckpt_dir prefix = Inr (Some p)"
    unfolding wait_result_def by blast
  from n have "r \<noteq> None" by (auto simp: deadline_passed_def)
  then obtain q where "r = Some q" by auto
  with p assms [OF j] show ?thesis by (auto simp: nothing_new_def)
qed

subsection \<open>wait\_for\_new\_checkpoint\<close>

lemma stop_time_passed:
  "deadline_passed (case timeout of None \<Rightarrow> None | Some t \<Rightarrow> Some (start + t)) now sleep
     \<longleftrightarrow> (\<exists>t. timeout = Some t \<and> now + sleep > start + t)"
  by (cases timeout) (simp_all add: deadline_passed_def)

lemma wait_for_new_checkpoint_result:
  assumes "wait_for_new_checkpoint w ckpt_dir lastp sleep timeout prefix i = Some y"
  shows "\<exists>r j. y = Inr (r, j) \<and> i \<le> j
     \<and> (r = None \<longrightarrow> (\<exists>t. timeout = Some t \<and> time_at w j + sleep > start_time_at w i + t)
                        \<and> nothing_new w ckpt_dir prefix lastp j)
     \<and> (\<forall>p. r = Some p \<longrightarrow> Some p \<noteq> lastp
                        \<and> latest_checkpoint_path (dir_at w j) ckpt_dir prefix = Inr (Some p))"
proof -
  let ?stop = "case timeout of None \<Rightarrow> None | Some t \<Rightarrow> Some (start_time_at w i + t)"
  from assms have "wait_loop w ckpt_dir lastp sleep ?stop prefix i = Some y"
    by (simp add: wait_for_new_checkpoint_def)
  from wait_loop_result [OF this] obtain r j where a: "y = Inr (r, j)" and b: "i \<le> j"
    and c: "r = None \<longrightarrow> nothing_new w ckpt_dir prefix lastp j
                              \<and> deadline_passed ?stop (time_at w j) sleep"
    and d: "\<forall>p. r = Some p \<longrightarrow> Some p \<noteq> lastp
                              \<and> latest_checkpoint_path (dir_at w j) ckpt_dir prefix = Inr (Some p)"
    unfolding wait_result_def by blast
  from c have "r = None \<longrightarrow> (\<exists>t. timeout = Some t \<and> time_at w j + sleep > start_time_at w i + t)
                        \<and> nothing_new w ckpt_dir prefix lastp j"
    unfolding stop_time_passed by blast
  with a b d show ?thesis by blast
qed

lemma wait_for_new_checkpoint_forever:
  assumes "\<And>k. i \<le> k \<Longrightarrow> nothing_new w ckpt_dir prefix lastp k"
  shows "wait_for_new_checkpoint w ckpt_dir lastp sleep None prefix i = None"
  using wait_loop_forever [OF assms] by (simp add: wait_for_new_checkpoint_def)

lemma wait_for_new_checkpoint_timeout:
  assumes "\<And>k. i \<le> k \<Longrightarrow> k < j \<Longrightarrow>
             nothing_new w ckpt_dir prefix lastp k \<and> \<not> time_at w k + sleep > start_time_at w i + t"
    and "i \<le> j" and "nothing_new w ckpt_dir prefix lastp j"
    and "time_at w j + sleep > start_time_at w i + t"
  shows "wait_for_new_checkpoint w ckpt_dir lastp sleep (Some t) prefix i = Some (Inr (None, j))"
proof -
  let ?stop = "Some (start_time_at w i + t)"
  from assms(2) obtain n where j: "j = i + n" using le_Suc_ex by blast
  have "wait_loop w ckpt_dir lastp sleep ?stop prefix i
      = wait_loop w ckpt_dir lastp sleep ?stop prefix (i + n)"
    using assms(1) j by (intro wait_loop_sleeps) (simp add: deadline_passed_def)
  also have "\<dots> = Some (Inr (None, j))"
    unfolding j [symmetric] using assms(3,4)
    by (intro wait_loop_timeout) (simp_all add: deadline_passed_def)
  finally show ?thesis by (simp add: wait_for_new_checkpoint_def)
qed

subsection \<open>The temporary file\<close>

text \<open>For a directory without a spare separator at its end and a prefix without a
  separator the paths of \<^verbatim>\<open>glob\<close> are the paths the source joins itself.\<close>

lemma posix_split_joined:
  assumes "CHR ''/'' \<notin> set q" and "X = [] \<or> last X = CHR ''/''"
  shows "fst (posix_split (X @ q))
       = (if X \<noteq> [] \<and> \<not> list_all (\<lambda>c. c = CHR ''/'') X
          then rev (dropWhile (\<lambda>c. c = CHR ''/'') (rev X)) else X)"
proof -
  have q: "\<forall>c \<in> set (rev q). c \<noteq> CHR ''/''" using assms(1) by auto
  have x: "rev X = [] \<or> \<not> (hd (rev X) \<noteq> CHR ''/'')"
    using assms(2) by (cases X rule: rev_cases) auto
  have "dropWhile (\<lambda>c. c \<noteq> CHR ''/'') (rev q @ rev X) = dropWhile (\<lambda>c. c \<noteq> CHR ''/'') (rev X)"
    using q by (intro dropWhile_append2) auto
  also have "\<dots> = rev X" using x by (cases "rev X") auto
  finally have "rev (dropWhile (\<lambda>c. c \<noteq> CHR ''/'') (rev (X @ q))) = X" by simp
  then show ?thesis by (simp add: posix_split_def Let_def)
qed

lemma glob_dirname_plain:
  assumes "plain_dir a" and "CHR ''/'' \<notin> set prefix"
  shows "path_join (fst (posix_split (path_join a (prefix @ ''*'')))) n = path_join a n"
proof -
  let ?q = "prefix @ ''*''"
  have q: "CHR ''/'' \<notin> set ?q" using assms(2) by simp
  have hq: "\<not> (?q \<noteq> [] \<and> hd ?q = CHR ''/'')" using assms(2) by (cases prefix) auto
  show ?thesis
  proof (cases "a = [] \<or> last a = CHR ''/''")
    case True
    then have pj: "path_join a ?q = a @ ?q" using hq by (simp add: path_join_def)
    have sp: "fst (posix_split (a @ ?q))
       = (if a \<noteq> [] \<and> \<not> list_all (\<lambda>c. c = CHR ''/'') a
          then rev (dropWhile (\<lambda>c. c = CHR ''/'') (rev a)) else a)"
      by (rule posix_split_joined [OF q True])
    show ?thesis
    proof (cases "a \<noteq> [] \<and> \<not> list_all (\<lambda>c. c = CHR ''/'') a")
      case False
      with sp pj show ?thesis by simp
    next
      case nall: True
      with True have la: "last a = CHR ''/''" by simp
      from nall obtain b where a: "a = b @ ''/''" using la by (cases a rule: rev_cases) auto
      from nall a have bne: "b \<noteq> []" by auto
      from assms(1) nall a bne have lb: "last b \<noteq> CHR ''/''"
        by (cases b rule: rev_cases) (auto simp: plain_dir_def)
      then have "dropWhile (\<lambda>c. c = CHR ''/'') (rev b) = rev b"
        using bne by (cases b rule: rev_cases) auto
      then have d: "fst (posix_split (a @ ?q)) = b" using sp nall a by simp
      from lb bne a show ?thesis unfolding pj d by (simp add: path_join_def)
    qed
  next
    case False
    then have ane: "a \<noteq> []" and la: "last a \<noteq> CHR ''/''" by auto
    then have pj: "path_join a ?q = (a @ ''/'') @ ?q" using hq by (simp add: path_join_def)
    have sp: "fst (posix_split ((a @ ''/'') @ ?q))
       = (if a @ ''/'' \<noteq> [] \<and> \<not> list_all (\<lambda>c. c = CHR ''/'') (a @ ''/'')
          then rev (dropWhile (\<lambda>c. c = CHR ''/'') (rev (a @ ''/''))) else a @ ''/'')"
      by (rule posix_split_joined [OF q]) simp
    from ane la have nall: "\<not> list_all (\<lambda>c. c = CHR ''/'') (a @ ''/'')"
      by (cases a rule: rev_cases) auto
    from ane la have "dropWhile (\<lambda>c. c = CHR ''/'') (rev a) = rev a"
      by (cases a rule: rev_cases) auto
    with sp nall have "fst (posix_split ((a @ ''/'') @ ?q)) = a" by simp
    then show ?thesis unfolding pj by simp
  qed
qed

lemma glob_plain:
  assumes "plain_dir ckpt_dir" and "CHR ''/'' \<notin> set prefix"
  shows "glob d ckpt_dir prefix = map (path_join ckpt_dir) (filter (glob_matches prefix) (listdir d))"
  unfolding glob_def using glob_dirname_plain [OF assms] by simp

lemma tmp_path: "checkpoint_path ckpt_dir ''tmp'' prefix = path_join ckpt_dir (tmp_name prefix)"
  by (simp add: checkpoint_path_def tmp_name_def)

text \<open>Then the latest path is the path of a file of the directory other than the
  temporary file, and so is what the loop returns and the iterator yields.\<close>

lemma latest_checkpoint_path_plain:
  assumes "plain_dir ckpt_dir" and "CHR ''/'' \<notin> set prefix"
    and "\<not> has_magic ckpt_dir" and "\<not> has_magic prefix"
    and "latest_checkpoint_path d ckpt_dir prefix = Inr (Some p)"
  shows "\<exists>name. name \<in> set (listdir d) \<and> name \<noteq> tmp_name prefix
            \<and> glob_matches prefix name \<and> p = path_join ckpt_dir name"
proof -
  from latest_checkpoint_path_total [of d ckpt_dir prefix] assms(5)
  have g: "p \<in> set (glob d ckpt_dir prefix)"
    and n: "p \<noteq> checkpoint_path ckpt_dir ''tmp'' prefix" by auto
  from g obtain name where name: "name \<in> set (listdir d)" "glob_matches prefix name"
    "p = path_join ckpt_dir name"
    unfolding glob_plain [OF assms(1,2)] by auto
  with n have "name \<noteq> tmp_name prefix" by (auto simp: tmp_path)
  with name show ?thesis by blast
qed

lemma wait_for_new_checkpoint_plain:
  assumes "plain_dir ckpt_dir" and "CHR ''/'' \<notin> set prefix"
    and "\<not> has_magic ckpt_dir" and "\<not> has_magic prefix"
    and "wait_for_new_checkpoint w ckpt_dir lastp sleep timeout prefix i = Some (Inr (Some p, j))"
  shows "\<exists>name. name \<in> set (listdir (dir_at w j)) \<and> name \<noteq> tmp_name prefix
            \<and> glob_matches prefix name \<and> p = path_join ckpt_dir name"
proof -
  from wait_for_new_checkpoint_result [OF assms(5)]
  have "latest_checkpoint_path (dir_at w j) ckpt_dir prefix = Inr (Some p)" by auto
  from latest_checkpoint_path_plain [OF assms(1-4) this] show ?thesis .
qed

lemma checkpoints_iterator_next_plain:
  assumes "plain_dir ckpt_dir" and "CHR ''/'' \<notin> set prefix"
    and "\<not> has_magic ckpt_dir" and "\<not> has_magic prefix"
    and "checkpoints_iterator_next loads w ckpt_dir target timeout prefix cursor i
           = Some (Yield v p j)"
  shows "\<exists>name. name \<in> set (listdir (dir_at w j)) \<and> name \<noteq> tmp_name prefix
            \<and> glob_matches prefix name \<and> p = path_join ckpt_dir name"
proof -
  from assms(5) have "wait_for_new_checkpoint w ckpt_dir cursor 1 timeout prefix i
     = Some (Inr (Some p, j))"
    by (auto simp: checkpoints_iterator_next_def
          split: option.splits sum.splits prod.splits)
  from wait_for_new_checkpoint_plain [OF assms(1-4) this] show ?thesis .
qed

text \<open>The cleanup of a save works on a directory without the temporary file: the rename
  has moved it, and a step does not render as \<open>tmp\<close>.\<close>

lemma save_renamed_no_tmp:
  assumes "save_renamed dumps d target step prefix overwrite = (Inr (), d3)"
  shows "tmp_name prefix \<notin> set (listdir d3)"
proof -
  have ok: "\<not> (exists d (ckpt_name prefix step) \<and> \<not> overwrite)"
  proof
    assume "exists d (ckpt_name prefix step) \<and> \<not> overwrite"
    then have "save_renamed dumps d target step prefix overwrite
       = (Inl FileExistsError, save_tmp_written dumps d target prefix)"
      by (simp add: save_renamed_exists_error)
    with assms show False by simp
  qed
  from save_renamed_ok [OF ok, of dumps target] assms
  have "set (listdir d3) = insert (ckpt_name prefix step) (set (listdir d) - {tmp_name prefix})"
    by auto
  with ckpt_name_not_tmp [of prefix step] show ?thesis by auto
qed

lemma save_cleanup_without_tmp:
  assumes "save_renamed dumps d target step prefix overwrite = (Inr (), d3)"
  shows "tmp_name prefix \<notin> set (checkpoint_files d3 prefix)
       \<and> tmp_name prefix \<notin> set (old_ckpts d3 prefix keep)"
proof -
  from save_renamed_no_tmp [OF assms] have c: "tmp_name prefix \<notin> set (checkpoint_files d3 prefix)"
    by (simp add: set_checkpoint_files)
  with old_ckpts_subset [of d3 prefix keep] show ?thesis by blast
qed

subsection \<open>Retention\<close>

lemma startswith_append: "startswith (p @ x) p"
  by (simp add: startswith_def)

lemma filter_not_in_take:
  "distinct Q \<Longrightarrow> filter (\<lambda>n. n \<notin> set (take m Q)) Q = drop m Q"
proof -
  assume d: "distinct Q"
  have "distinct (take m Q @ drop m Q)" using d by simp
  then have disj: "set (take m Q) \<inter> set (drop m Q) = {}" by (simp only: distinct_append)
  have a: "filter (\<lambda>n. n \<notin> set (take m Q)) (take m Q) = []" by simp
  have b: "filter (\<lambda>n. n \<notin> set (take m Q)) (drop m Q) = drop m Q"
    using disj by (intro filter_True) auto
  have "filter (\<lambda>n. n \<notin> set (take m Q)) Q
      = filter (\<lambda>n. n \<notin> set (take m Q)) (take m Q @ drop m Q)" by simp
  also have "\<dots> = filter (\<lambda>n. n \<notin> set (take m Q)) (take m Q)
      @ filter (\<lambda>n. n \<notin> set (take m Q)) (drop m Q)" by (rule filter_append)
  also have "\<dots> = drop m Q" by (simp only: a b append_Nil)
  finally show ?thesis .
qed

lemma old_ckpts_take:
  "1 \<le> keep \<Longrightarrow>
     old_ckpts d prefix keep
       = take (length (checkpoint_files d prefix) - nat keep) (checkpoint_files d prefix)"
  by (auto simp: old_ckpts_def slice_to_def nat_diff_distrib' nat_le_iff)

lemma checkpoint_files_eqI:
  assumes "sorted Q" and "distinct Q" and "distinct (listdir d)"
    and "set Q = {n \<in> set (listdir d). startswith n prefix}"
  shows "checkpoint_files d prefix = Q"
proof (rule sorted_distinct_set_unique)
  show "sorted (checkpoint_files d prefix)" by (simp add: checkpoint_files_def)
  show "distinct (checkpoint_files d prefix)" using assms(3) by (rule distinct_checkpoint_files)
  show "set (checkpoint_files d prefix) = set Q" using assms(4) by (simp add: set_checkpoint_files)
qed (rule assms)+

lemma checkpoint_files_cleanup:
  assumes "distinct (listdir d)" and "save_cleanup d prefix keep = (Inr (), d')" and "1 \<le> keep"
  shows "checkpoint_files d' prefix
       = drop (length (checkpoint_files d prefix) - nat keep) (checkpoint_files d prefix)"
proof -
  let ?Q = "checkpoint_files d prefix" and ?m = "length (checkpoint_files d prefix) - nat keep"
  from save_cleanup_ok [OF assms(1), of prefix keep] assms(2)
  have l: "listdir d' = filter (\<lambda>n. n \<notin> set (old_ckpts d prefix keep)) (listdir d)" by auto
  have "checkpoint_files d' prefix
      = filter (\<lambda>n. n \<notin> set (old_ckpts d prefix keep)) ?Q"
    unfolding checkpoint_files_def l
    by (simp add: filter_sort [symmetric] conj_commute)
  also have "\<dots> = filter (\<lambda>n. n \<notin> set (take ?m ?Q)) ?Q"
    by (simp add: old_ckpts_take [OF assms(3)])
  also have "\<dots> = drop ?m ?Q"
    by (rule filter_not_in_take) (rule distinct_checkpoint_files [OF assms(1)])
  finally show ?thesis .
qed

text \<open>One save of a name beyond every checkpoint name of the directory.\<close>

lemma save_checkpoint_newest:
  assumes "distinct (listdir d)" and "tmp_name prefix \<notin> set (listdir d)"
    and "\<forall>n \<in> set (checkpoint_files d prefix). n < ckpt_name prefix step"
    and "1 \<le> keep"
  shows "\<exists>d'. save_checkpoint dumps d ckpt_dir target step prefix keep overwrite
            = (Inr (path_join ckpt_dir (ckpt_name prefix step)), d')
       \<and> distinct (listdir d') \<and> tmp_name prefix \<notin> set (listdir d')
       \<and> checkpoint_files d' prefix
            = drop (Suc (length (checkpoint_files d prefix)) - nat keep)
                (checkpoint_files d prefix @ [ckpt_name prefix step])
       \<and> (\<forall>n \<in> set (listdir d'). map_of d' n = ((map_of d)(ckpt_name prefix step \<mapsto> dumps target)) n)
       \<and> (\<forall>n. \<not> startswith n prefix \<longrightarrow> map_of d' n = map_of d n)"
proof -
  let ?ck = "ckpt_name prefix step" and ?tmp = "tmp_name prefix"
  let ?P = "checkpoint_files d prefix"
  have pre: "startswith ?ck prefix" by (simp add: ckpt_name_def startswith_append)
  have new: "?ck \<notin> set (listdir d)"
  proof
    assume "?ck \<in> set (listdir d)"
    with pre have "?ck \<in> set ?P" by (simp add: set_checkpoint_files)
    with assms(3) show False by auto
  qed
  then have ok: "\<not> (exists d ?ck \<and> \<not> overwrite)" by (simp add: exists_iff)
  from save_checkpoint_ok [OF assms(1) ok, of dumps target keep ckpt_dir] obtain d3 d4 where
    r: "save_renamed dumps d target step prefix overwrite = (Inr (), d3)"
    and dd3: "distinct (listdir d3)"
    and c: "save_cleanup d3 prefix keep = (Inr (), d4)"
    and s: "save_checkpoint dumps d ckpt_dir target step prefix keep overwrite
         = (Inr (path_join ckpt_dir ?ck), d4)" by blast
  from save_renamed_ok [OF ok, of dumps target] r
  have m3: "map_of d3 = ((map_of d)(?tmp := None))(?ck \<mapsto> dumps target)"
    and l3: "set (listdir d3) = insert ?ck (set (listdir d) - {?tmp})" by auto
  from assms(2) have "map_of d ?tmp = None" by (simp add: listdir_def map_of_eq_None_iff)
  then have "(map_of d)(?tmp := None) = map_of d" by (auto simp: fun_eq_iff)
  with m3 have m3': "map_of d3 = (map_of d)(?ck \<mapsto> dumps target)" by simp
  from l3 assms(2) have l3': "set (listdir d3) = insert ?ck (set (listdir d))" by auto
  have q: "checkpoint_files d3 prefix = ?P @ [?ck]"
  proof (rule checkpoint_files_eqI [OF _ _ dd3])
    have "sorted ?P" by (simp add: checkpoint_files_def)
    with assms(3) show "sorted (?P @ [?ck])" by (auto simp: sorted_append intro: less_imp_le)
    from assms(3) distinct_checkpoint_files [OF assms(1), of prefix]
    show "distinct (?P @ [?ck])" by auto
    from l3' pre show "set (?P @ [?ck]) = {n \<in> set (listdir d3). startswith n prefix}"
      by (auto simp: set_checkpoint_files)
  qed
  from save_cleanup_ok [OF dd3, of prefix keep] c
  have l4: "listdir d4 = filter (\<lambda>n. n \<notin> set (old_ckpts d3 prefix keep)) (listdir d3)"
    and m4: "map_of d4 = (\<lambda>n. if n \<in> set (old_ckpts d3 prefix keep) then None else map_of d3 n)"
    by auto
  have 1: "distinct (listdir d4)" using dd3 by (simp add: l4)
  have 2: "?tmp \<notin> set (listdir d4)" using l3' assms(2) ckpt_name_not_tmp [of prefix step]
    by (auto simp: l4)
  have 3: "checkpoint_files d4 prefix = drop (Suc (length ?P) - nat keep) (?P @ [?ck])"
    using checkpoint_files_cleanup [OF dd3 c assms(4)] by (simp add: q)
  have 4: "\<forall>n \<in> set (listdir d4). map_of d4 n = ((map_of d)(?ck \<mapsto> dumps target)) n"
    by (auto simp: l4 m4 m3')
  have 5: "\<forall>n. \<not> startswith n prefix \<longrightarrow> map_of d4 n = map_of d n"
  proof (intro allI impI)
    fix n assume n: "\<not> startswith n prefix"
    with old_ckpts_subset [of d3 prefix keep] have "n \<notin> set (old_ckpts d3 prefix keep)"
      by (auto simp: set_checkpoint_files)
    moreover from n pre have "n \<noteq> ?ck" by auto
    ultimately show "map_of d4 n = map_of d n" by (simp add: m4 m3')
  qed
  from s 1 2 3 4 5 show ?thesis by blast
qed

text \<open>Saves in a row, each of a name beyond those before it.\<close>

lemma drop_count:
  fixes p k r :: nat
  assumes "p \<le> k" and "1 \<le> k"
  shows "Suc p - (Suc p - k) + r - k + (Suc p - k) = p + Suc r - k"
proof (cases "p = k")
  case True
  with assms show ?thesis by simp
next
  case False
  with assms have "Suc p - k = 0" by simp
  then show ?thesis by simp
qed

lemma save_all_increasing:
  assumes "distinct (listdir d)" and "tmp_name prefix \<notin> set (listdir d)"
    and "sorted_wrt (<) (checkpoint_files d prefix @ map (\<lambda>(t, s). ckpt_name prefix s) saves)"
    and "1 \<le> keep" and "length (checkpoint_files d prefix) \<le> nat keep"
  shows "\<exists>d'. save_all dumps d ckpt_dir saves prefix keep overwrite = (Inr (), d')
       \<and> checkpoint_files d' prefix
            = drop (length (checkpoint_files d prefix) + length saves - nat keep)
                (checkpoint_files d prefix @ map (\<lambda>(t, s). ckpt_name prefix s) saves)
       \<and> (\<forall>n \<in> set (checkpoint_files d' prefix).
             map_of d' n
               = (map_of d ++ map_of (map (\<lambda>(t, s). (ckpt_name prefix s, dumps t)) saves)) n)
       \<and> (\<forall>n. \<not> startswith n prefix \<longrightarrow> map_of d' n = map_of d n)"
  using assms
proof (induction saves arbitrary: d)
  case Nil
  then show ?case by simp
next
  case (Cons x rest)
  obtain t s where x: "x = (t, s)" by (cases x)
  let ?P = "checkpoint_files d prefix" and ?ck = "ckpt_name prefix s"
  let ?names = "map (\<lambda>(t, s). ckpt_name prefix s) rest"
  let ?kvs = "map (\<lambda>(t, s). (ckpt_name prefix s, dumps t)) rest"
  let ?k = "nat keep"
  from Cons.prems(3) have srt: "sorted_wrt (<) (?P @ ?ck # ?names)" by (simp add: x)
  then have lt: "\<forall>n \<in> set ?P. n < ?ck" by (auto simp: sorted_wrt_append)
  from save_checkpoint_newest [OF Cons.prems(1,2) lt Cons.prems(4), of dumps ckpt_dir t overwrite]
  obtain d1 where
    s1: "save_checkpoint dumps d ckpt_dir t s prefix keep overwrite
            = (Inr (path_join ckpt_dir ?ck), d1)"
    and dd1: "distinct (listdir d1)" and tmp1: "tmp_name prefix \<notin> set (listdir d1)"
    and p1: "checkpoint_files d1 prefix = drop (Suc (length ?P) - ?k) (?P @ [?ck])"
    and m1: "\<forall>n \<in> set (listdir d1). map_of d1 n = ((map_of d)(?ck \<mapsto> dumps t)) n"
    and f1: "\<forall>n. \<not> startswith n prefix \<longrightarrow> map_of d1 n = map_of d n" by blast
  let ?m = "Suc (length ?P) - ?k"
  from Cons.prems(4) have k1: "1 \<le> ?k" by simp
  have p1': "checkpoint_files d1 prefix @ ?names = drop ?m (?P @ ?ck # ?names)"
    using Cons.prems(5) k1 by (simp add: p1)
  have srt1: "sorted_wrt (<) (checkpoint_files d1 prefix @ ?names)"
    unfolding p1' using srt by (rule sorted_wrt_drop)
  have len1: "length (checkpoint_files d1 prefix) \<le> ?k"
    using k1 by (simp add: p1)
  from Cons.IH [OF dd1 tmp1 srt1 Cons.prems(4) len1] obtain d' where
    s': "save_all dumps d1 ckpt_dir rest prefix keep overwrite = (Inr (), d')"
    and p': "checkpoint_files d' prefix
         = drop (length (checkpoint_files d1 prefix) + length rest - ?k)
             (checkpoint_files d1 prefix @ ?names)"
    and m': "\<forall>n \<in> set (checkpoint_files d' prefix). map_of d' n = (map_of d1 ++ map_of ?kvs) n"
    and f': "\<forall>n. \<not> startswith n prefix \<longrightarrow> map_of d' n = map_of d1 n" by blast
  have 1: "save_all dumps d ckpt_dir (x # rest) prefix keep overwrite = (Inr (), d')"
    by (simp add: x s1 s')
  have l1: "length (checkpoint_files d1 prefix) = Suc (length ?P) - ?m"
    by (simp add: p1)
  have 2: "checkpoint_files d' prefix
      = drop (length ?P + length (x # rest) - ?k)
          (?P @ map (\<lambda>(t, s). ckpt_name prefix s) (x # rest))"
  proof -
    have "checkpoint_files d' prefix
        = drop (Suc (length ?P) - ?m + length rest - ?k + ?m) (?P @ ?ck # ?names)"
      unfolding p' p1' l1 by (simp only: drop_drop)
    also have "Suc (length ?P) - ?m + length rest - ?k + ?m = length ?P + length (x # rest) - ?k"
      using drop_count [OF Cons.prems(5) k1, of "length rest"] by (simp only: length_Cons)
    finally show ?thesis by (simp add: x)
  qed
  have dom: "dom (map_of ?kvs) = set ?names"
    by (auto simp: dom_map_of_conv_image_fst image_iff split: prod.splits) force+
  from srt have ck_new: "?ck \<notin> set ?names" by (auto simp: sorted_wrt_append)
  have 3: "\<forall>n \<in> set (checkpoint_files d' prefix).
      map_of d' n = (map_of d ++ map_of (map (\<lambda>(t, s). (ckpt_name prefix s, dumps t)) (x # rest))) n"
  proof
    fix n assume n: "n \<in> set (checkpoint_files d' prefix)"
    show "map_of d' n = (map_of d ++ map_of (map (\<lambda>(t, s). (ckpt_name prefix s, dumps t)) (x # rest))) n"
    proof (cases "n \<in> set ?names")
      case True
      with dom obtain v where v: "map_of ?kvs n = Some v" by blast
      from True ck_new have "n \<noteq> ?ck" by metis
      with m' n v show ?thesis by (simp add: x map_add_def)
    next
      case False
      with dom have none: "map_of ?kvs n = None" by blast
      from n p' have "n \<in> set (checkpoint_files d1 prefix @ ?names)"
        by (auto dest: in_set_dropD)
      with False have "n \<in> set (checkpoint_files d1 prefix)" by simp
      then have "n \<in> set (listdir d1)" by (simp add: set_checkpoint_files)
      with m1 have "map_of d1 n = ((map_of d)(?ck \<mapsto> dumps t)) n" by blast
      with m' n none show ?thesis by (simp add: x map_add_def)
    qed
  qed
  have 4: "\<forall>n. \<not> startswith n prefix \<longrightarrow> map_of d' n = map_of d n"
    using f1 f' by simp
  from 1 2 3 4 show ?case by blast
qed

text \<open>The rename works on the last of the states before it.\<close>

lemma save_renamed_after_states:
  "save_renamed dumps d target step prefix overwrite =
     (case save_target_cleared (save_tmp_written dumps d target prefix) (ckpt_name prefix step)
             overwrite of
        Inl e \<Rightarrow> (Inl e, last (save_states_before_rename dumps d target step prefix overwrite))
      | Inr d2 \<Rightarrow>
          (case shutil_move (last (save_states_before_rename dumps d target step prefix overwrite))
                  (tmp_name prefix) (ckpt_name prefix step) of
             Inl e \<Rightarrow> (Inl e, last (save_states_before_rename dumps d target step prefix overwrite))
           | Inr d3 \<Rightarrow> (Inr (), d3)))"
  by (simp add: save_renamed_def save_states_before_rename_def Let_def split: sum.splits)

subsection \<open>The key without \<open>signed\<close>\<close>

lemma scale10_minus: "scale10 (- m) e = - scale10 m e"
  by (simp add: scale10_def)

lemma scale10_nonneg: "0 \<le> m \<Longrightarrow> 0 \<le> scale10 m e"
  by (simp add: scale10_def)

text \<open>\<open>float_value\<close> in two steps: the value of the text after the sign, and the sign.\<close>

lemma float_value_sign_magnitude:
  "\<exists>mag. (\<forall>u. 0 \<le> mag u)
      \<and> (\<forall>s. float_value s
              = (if (case s of [] \<Rightarrow> False | c # _ \<Rightarrow> c = CHR ''-'')
                 then - mag (case s of [] \<Rightarrow> [] | c # t \<Rightarrow> if is_sign c then t else s)
                 else mag (case s of [] \<Rightarrow> [] | c # t \<Rightarrow> if is_sign c then t else s)))"
proof -
  define mant :: "string \<Rightarrow> rat" where
    "mant = (\<lambda>u. of_nat (nat_of_digits (takeWhile is_digit u @
          (if (case dropWhile is_digit u of [] \<Rightarrow> False | c # _ \<Rightarrow> c = CHR ''.'')
           then takeWhile is_digit (tl (dropWhile is_digit u)) else [])))
       / 10 ^ length (if (case dropWhile is_digit u of [] \<Rightarrow> False | c # _ \<Rightarrow> c = CHR ''.'')
           then takeWhile is_digit (tl (dropWhile is_digit u)) else []))"
  define es :: "string \<Rightarrow> string" where
    "es = (\<lambda>u. case (if (case dropWhile is_digit u of [] \<Rightarrow> False | c # _ \<Rightarrow> c = CHR ''.'')
           then dropWhile is_digit (tl (dropWhile is_digit u)) else dropWhile is_digit u) of
         [] \<Rightarrow> [] | _ # t \<Rightarrow> t)"
  define expo :: "string \<Rightarrow> int" where
    "expo = (\<lambda>u. if (case es u of [] \<Rightarrow> False | c # _ \<Rightarrow> c = CHR ''-'')
         then - int (nat_of_digits (case es u of [] \<Rightarrow> [] | c # t \<Rightarrow> if is_sign c then t else es u))
         else int (nat_of_digits (case es u of [] \<Rightarrow> [] | c # t \<Rightarrow> if is_sign c then t else es u)))"
  define mag where "mag = (\<lambda>u. scale10 (mant u) (expo u))"
  have nn: "\<forall>u. 0 \<le> mag u"
    unfolding mag_def mant_def by (intro allI scale10_nonneg) simp
  have fv: "float_value s
      = scale10 (if (case s of [] \<Rightarrow> False | c # _ \<Rightarrow> c = CHR ''-'')
                 then - mant (case s of [] \<Rightarrow> [] | c # t \<Rightarrow> if is_sign c then t else s)
                 else mant (case s of [] \<Rightarrow> [] | c # t \<Rightarrow> if is_sign c then t else s))
          (expo (case s of [] \<Rightarrow> [] | c # t \<Rightarrow> if is_sign c then t else s))" for s
    unfolding float_value_def Let_def mant_def expo_def es_def by (rule refl)
  have "\<forall>s. float_value s
              = (if (case s of [] \<Rightarrow> False | c # _ \<Rightarrow> c = CHR ''-'')
                 then - mag (case s of [] \<Rightarrow> [] | c # t \<Rightarrow> if is_sign c then t else s)
                 else mag (case s of [] \<Rightarrow> [] | c # t \<Rightarrow> if is_sign c then t else s))"
    unfolding fv mag_def by (simp add: scale10_minus)
  with nn show ?thesis by blast
qed

lemma float_value_abs:
  assumes "sg = [] \<or> (\<exists>c. sg = [c] \<and> is_sign c)" and "num \<noteq> []" and "\<not> is_sign (hd num)"
  shows "\<bar>float_value (sg @ num)\<bar> = float_value num"
proof -
  from float_value_sign_magnitude obtain mag where nn: "\<And>u. 0 \<le> mag u"
    and fv: "\<And>s. float_value s
              = (if (case s of [] \<Rightarrow> False | c # _ \<Rightarrow> c = CHR ''-'')
                 then - mag (case s of [] \<Rightarrow> [] | c # t \<Rightarrow> if is_sign c then t else s)
                 else mag (case s of [] \<Rightarrow> [] | c # t \<Rightarrow> if is_sign c then t else s))"
    by blast
  from assms(2,3) obtain x t where num: "num = x # t" and x: "\<not> is_sign x" by (cases num) auto
  from x have xm: "x \<noteq> CHR ''-''" by (auto simp: is_sign_def)
  have un: "float_value (x # t) = mag (x # t)" using x xm by (simp add: fv)
  from assms(1) show ?thesis
  proof
    assume "sg = []"
    with un nn [of "x # t"] num show ?thesis by simp
  next
    assume "\<exists>c. sg = [c] \<and> is_sign c"
    then obtain c where sg: "sg = [c]" and c: "is_sign c" by blast
    have "float_value (c # x # t) = (if c = CHR ''-'' then - mag (x # t) else mag (x # t))"
      using c by (auto simp: fv is_sign_def)
    with un nn [of "x # t"] show ?thesis by (simp add: sg num)
  qed
qed

text \<open>What a match captures: with \<open>signed\<close> a number, without it the same number without
  its sign.\<close>

lemma match_float_parts:
  assumes "match_float s = Some (sg, num, rest)"
  shows "(sg = [] \<or> (\<exists>c. sg = [c] \<and> is_sign c)) \<and> num \<noteq> [] \<and> \<not> is_sign (hd num)"
proof -
  define sg0 where "sg0 = (case s of [] \<Rightarrow> [] | c # _ \<Rightarrow> if is_sign c then [c] else [])"
  from assms obtain m r e where sg: "sg = sg0"
    and m: "match_mantissa (drop (length sg0) s) = Some (m, r)" and num: "num = m @ e"
    by (auto simp: match_float_def Let_def sg0_def split: option.splits prod.splits)
  have "sg0 = [] \<or> (\<exists>c. sg0 = [c] \<and> is_sign c)"
    unfolding sg0_def by (auto split: list.splits)
  moreover from match_mantissa_head [OF m] have "num \<noteq> [] \<and> \<not> is_sign (hd num)"
    by (simp add: num)
  ultimately show ?thesis by (simp add: sg)
qed

lemma maybe_num_captured_abs:
  assumes "match_float s = Some (sg, num, rest)"
  shows "maybe_num True (sg @ num) = Inr (Num (float_value (sg @ num)))
       \<and> maybe_num False num = Inr (Num \<bar>float_value (sg @ num)\<bar>)"
proof -
  from match_float_whole [OF assms]
  have 1: "maybe_num True (sg @ num) = Inr (Num (float_value (sg @ num)))"
    and 2: "maybe_num False num = Inr (Num (float_value num))"
    by (simp_all add: maybe_num_number)
  from match_float_parts [OF assms] have "\<bar>float_value (sg @ num)\<bar> = float_value num"
    by (intro float_value_abs) simp_all
  with 1 2 show ?thesis by simp
qed

lemma split_pieces_abs:
  "lit = [] \<or> match_float (rev lit @ s) = None \<Longrightarrow>
     \<exists>k. map_err (maybe_num True) (re_split True lit s) = Inr k
        \<and> map_err (maybe_num False) (re_split False lit s) = Inr (map abs_token k)"
proof (induction s arbitrary: lit rule: length_induct)
  case (1 s)
  show ?case
  proof (cases s)
    case Nil
    with 1(2) have "match_float (rev lit) = None"
      by (auto simp: match_float_def match_mantissa_def)
    with Nil show ?thesis by (simp add: maybe_num_literal)
  next
    case (Cons c t)
    show ?thesis
    proof (cases "match_float (c # t)")
      case None
      from 1(2) None Cons have "c # lit = [] \<or> match_float (rev (c # lit) @ t) = None" by auto
      with 1(1) Cons obtain k where
        "map_err (maybe_num True) (re_split True (c # lit) t) = Inr k"
        "map_err (maybe_num False) (re_split False (c # lit) t) = Inr (map abs_token k)"
        by (metis length_Cons lessI)
      with None Cons show ?thesis by simp
    next
      case (Some m)
      then obtain sg num rest where m: "match_float (c # t) = Some (sg, num, rest)"
        by (cases m) auto
      have lit: "match_float (rev lit) = None"
      proof (cases "lit = []")
        case True
        then show ?thesis by (simp add: match_float_def match_mantissa_def)
      next
        case False
        with 1(2) Cons have "match_float (rev lit @ c # t) = None" by simp
        with match_float_append [of "rev lit" "c # t"] show ?thesis
          by (cases "match_float (rev lit)") auto
      qed
      from match_float_shorter [OF m] Cons have "length rest < length s" by simp
      with 1(1) obtain k where
        k1: "map_err (maybe_num True) (re_split True [] rest) = Inr k"
        and k2: "map_err (maybe_num False) (re_split False [] rest) = Inr (map abs_token k)"
        by blast
      from maybe_num_captured_abs [OF m] m lit k1 k2 Cons show ?thesis
        by (simp add: maybe_num_literal)
    qed
  qed
qed

lemma split_keys_unsigned:
  "\<exists>k. split_keys True s = Inr k \<and> split_keys False s = Inr (map abs_token k)"
  unfolding split_keys_def by (rule split_pieces_abs) simp

section \<open>The claims\<close>

subsection \<open>C9: the temporary file after FileExistsError\<close>

text \<open>
  C9. Whenever \<open>save_checkpoint\<close> raises \<open>FileExistsError\<close>, the target path existed
  and \<open>overwrite\<close> was false; the new content has been written to the temporary file
  \<open><prefix>tmp\<close>, which is still in the directory afterwards, and every file under
  another name is as it was: none created, none removed, none changed.
\<close>

theorem save_checkpoint_exists_error_leaves_tmp:
  assumes "fst (save_checkpoint dumps d ckpt_dir target step prefix keep overwrite) = Inl FileExistsError"
  shows "exists d (ckpt_name prefix step) \<and> \<not> overwrite
    \<and> map_of (snd (save_checkpoint dumps d ckpt_dir target step prefix keep overwrite)) (tmp_name prefix)
          = Some (dumps target)
    \<and> (\<forall>name. name \<noteq> tmp_name prefix \<longrightarrow>
          map_of (snd (save_checkpoint dumps d ckpt_dir target step prefix keep overwrite)) name
            = map_of d name)"
proof -
  from assms have c: "exists d (ckpt_name prefix step) \<and> \<not> overwrite"
    by (simp add: save_checkpoint_exists_error_iff)
  then have "save_checkpoint dumps d ckpt_dir target step prefix keep overwrite
      = (Inl FileExistsError, save_tmp_written dumps d target prefix)"
    by (simp add: save_checkpoint_def save_renamed_exists_error)
  with c show ?thesis
    by (simp add: save_tmp_written_def map_of_write_file)
qed

text \<open>A directory with \<open>checkpoint_9\<close>, and a save of step 9 without \<open>overwrite\<close>.\<close>

theorem save_checkpoint_exists_error_leaves_tmp_witness:
  "fst (save_checkpoint id [(''checkpoint_9'', ''old'')] ''/d'' ''new'' 9 ''checkpoint_'' 1 False)
      = Inl FileExistsError
   \<and> snd (save_checkpoint id [(''checkpoint_9'', ''old'')] ''/d'' ''new'' 9 ''checkpoint_'' 1 False)
      = [(''checkpoint_9'', ''old''), (''checkpoint_tmp'', ''new'')]
   \<and> map_of (snd (save_checkpoint id [(''checkpoint_9'', ''old'')] ''/d'' ''new'' 9 ''checkpoint_'' 1 False))
        ''checkpoint_tmp'' = Some ''new''
   \<and> map_of (snd (save_checkpoint id [(''checkpoint_9'', ''old'')] ''/d'' ''new'' 9 ''checkpoint_'' 1 False))
        ''checkpoint_9'' = Some ''old''"
proof -
  have e: "save_checkpoint id [(''checkpoint_9'', ''old'')] ''/d'' ''new'' 9 ''checkpoint_'' 1 False
      = (Inl FileExistsError, [(''checkpoint_9'', ''old''), (''checkpoint_tmp'', ''new'')])"
    by code_simp
  then have h: "fst (save_checkpoint id [(''checkpoint_9'', ''old'')] ''/d'' ''new'' 9 ''checkpoint_'' 1 False)
      = Inl FileExistsError" by simp
  have t: "tmp_name ''checkpoint_'' = ''checkpoint_tmp''" by (simp add: tmp_name_def)
  from save_checkpoint_exists_error_leaves_tmp [OF h] e t show ?thesis
    by simp
qed

subsection \<open>C7: saving to a path that exists\<close>

text \<open>
  The claim as the specification states it promises that after a save with \<open>overwrite\<close>
  the path holds the new content. The cleanup that follows the rename cuts the sorted
  names down to the last \<open>keep\<close> and makes no exception for the file just written: with
  \<open>checkpoint_5\<close> and \<open>checkpoint_9\<close> in the directory and \<open>keep = 1\<close>, saving step 5
  again removes \<open>checkpoint_5\<close>, new content and all, and still returns its path.
\<close>

theorem save_checkpoint_overwrite_counterexample:
  "exists [(''checkpoint_5'', ''old''), (''checkpoint_9'', ''x'')] (ckpt_name ''checkpoint_'' 5)
   \<and> save_checkpoint id [(''checkpoint_5'', ''old''), (''checkpoint_9'', ''x'')]
        ''/d'' ''new'' 5 ''checkpoint_'' 1 True
       = (Inr ''/d/checkpoint_5'', [(''checkpoint_9'', ''x'')])
   \<and> map_of [(''checkpoint_9'', ''x'')] (ckpt_name ''checkpoint_'' 5) \<noteq> Some (id ''new'')"
  by code_simp

text \<open>
  C7 (amended). For every save whose target path already exists, in a directory whose
  names are distinct: without \<open>overwrite\<close> it raises \<open>FileExistsError\<close> and the file at
  the path keeps its content; with \<open>overwrite\<close> the stages up to the rename succeed and
  put the new content at the path, the call returns the path, and afterwards the path
  holds the new content, or no file at all when its name is among the old checkpoints
  the cleanup removes. Either way the old content is gone.
\<close>

theorem save_checkpoint_existing_target:
  assumes "distinct (listdir d)" and "exists d (ckpt_name prefix step)"
  shows "(\<not> overwrite \<longrightarrow>
            fst (save_checkpoint dumps d ckpt_dir target step prefix keep overwrite)
              = Inl FileExistsError
          \<and> map_of (snd (save_checkpoint dumps d ckpt_dir target step prefix keep overwrite))
              (ckpt_name prefix step) = map_of d (ckpt_name prefix step))
       \<and> (overwrite \<longrightarrow>
            (\<exists>d3. save_renamed dumps d target step prefix overwrite = (Inr (), d3)
               \<and> map_of d3 (ckpt_name prefix step) = Some (dumps target)
               \<and> fst (save_checkpoint dumps d ckpt_dir target step prefix keep overwrite)
                   = Inr (path_join ckpt_dir (ckpt_name prefix step))
               \<and> map_of (snd (save_checkpoint dumps d ckpt_dir target step prefix keep overwrite))
                   (ckpt_name prefix step)
                   = (if ckpt_name prefix step \<in> set (old_ckpts d3 prefix keep)
                      then None else Some (dumps target))))"
proof (intro conjI impI)
  assume n: "\<not> overwrite"
  with assms(2) have e: "save_checkpoint dumps d ckpt_dir target step prefix keep overwrite
      = (Inl FileExistsError, save_tmp_written dumps d target prefix)"
    by (simp add: save_checkpoint_def save_renamed_exists_error)
  then show "fst (save_checkpoint dumps d ckpt_dir target step prefix keep overwrite)
      = Inl FileExistsError" by simp
  from e ckpt_name_not_tmp [of prefix step]
  show "map_of (snd (save_checkpoint dumps d ckpt_dir target step prefix keep overwrite))
      (ckpt_name prefix step) = map_of d (ckpt_name prefix step)"
    by (simp add: save_tmp_written_def map_of_write_file)
next
  assume ov: overwrite
  then have ok: "\<not> (exists d (ckpt_name prefix step) \<and> \<not> overwrite)" by simp
  from save_checkpoint_ok [OF assms(1) ok, of dumps target keep ckpt_dir] obtain d3 d4 where
    r: "save_renamed dumps d target step prefix overwrite = (Inr (), d3)"
    and dd: "distinct (listdir d3)"
    and c: "save_cleanup d3 prefix keep = (Inr (), d4)"
    and s: "save_checkpoint dumps d ckpt_dir target step prefix keep overwrite
         = (Inr (path_join ckpt_dir (ckpt_name prefix step)), d4)" by blast
  from save_renamed_ok [OF ok, of dumps target] r
  have m3: "map_of d3 (ckpt_name prefix step) = Some (dumps target)" by auto
  from save_cleanup_ok [OF dd, of prefix keep] c
  have m4: "map_of d4 = (\<lambda>n. if n \<in> set (old_ckpts d3 prefix keep) then None else map_of d3 n)"
    by auto
  from r m3 s m4
  show "\<exists>d3. save_renamed dumps d target step prefix overwrite = (Inr (), d3)
     \<and> map_of d3 (ckpt_name prefix step) = Some (dumps target)
     \<and> fst (save_checkpoint dumps d ckpt_dir target step prefix keep overwrite)
         = Inr (path_join ckpt_dir (ckpt_name prefix step))
     \<and> map_of (snd (save_checkpoint dumps d ckpt_dir target step prefix keep overwrite))
         (ckpt_name prefix step)
         = (if ckpt_name prefix step \<in> set (old_ckpts d3 prefix keep)
            then None else Some (dumps target))"
    by simp
qed

text \<open>A directory with \<open>checkpoint_5\<close> and \<open>checkpoint_3\<close>, step 5 saved again without
  and with \<open>overwrite\<close>.\<close>

theorem save_checkpoint_existing_target_witness:
  "distinct (listdir [(''checkpoint_5'', ''old''), (''checkpoint_3'', ''x'')])
   \<and> exists [(''checkpoint_5'', ''old''), (''checkpoint_3'', ''x'')] (ckpt_name ''checkpoint_'' 5)
   \<and> fst (save_checkpoint id [(''checkpoint_5'', ''old''), (''checkpoint_3'', ''x'')]
             ''/d'' ''new'' 5 ''checkpoint_'' 1 False) = Inl FileExistsError
   \<and> map_of (snd (save_checkpoint id [(''checkpoint_5'', ''old''), (''checkpoint_3'', ''x'')]
             ''/d'' ''new'' 5 ''checkpoint_'' 1 False)) ''checkpoint_5'' = Some ''old''
   \<and> fst (save_checkpoint id [(''checkpoint_5'', ''old''), (''checkpoint_3'', ''x'')]
             ''/d'' ''new'' 5 ''checkpoint_'' 1 True) = Inr ''/d/checkpoint_5''
   \<and> map_of (snd (save_checkpoint id [(''checkpoint_5'', ''old''), (''checkpoint_3'', ''x'')]
             ''/d'' ''new'' 5 ''checkpoint_'' 1 True)) ''checkpoint_5'' = Some ''new''"
proof -
  let ?d = "[(''checkpoint_5'', ''old''), (''checkpoint_3'', ''x'')]"
  have n: "ckpt_name ''checkpoint_'' 5 = ''checkpoint_5''" by code_simp
  have h1: "distinct (listdir ?d)" by (simp add: listdir_def)
  have h2: "exists ?d (ckpt_name ''checkpoint_'' 5)" by (simp add: n exists_def)
  have p: "path_join ''/d'' ''checkpoint_5'' = ''/d/checkpoint_5''" by (simp add: path_join_def)
  have f: "map_of ?d ''checkpoint_5'' = Some ''old''" by simp
  have r: "save_renamed id ?d ''new'' 5 ''checkpoint_'' True
      = (Inr (), [(''checkpoint_3'', ''x''), (''checkpoint_5'', ''new'')])" by code_simp
  have o: "old_ckpts [(''checkpoint_3'', ''x''), (''checkpoint_5'', ''new'')] ''checkpoint_'' 1
      = [''checkpoint_3'']" by code_simp
  from save_checkpoint_existing_target [OF h1 h2, of False id "''/d''" "''new''" 1]
  have a: "fst (save_checkpoint id ?d ''/d'' ''new'' 5 ''checkpoint_'' 1 False) = Inl FileExistsError
      \<and> map_of (snd (save_checkpoint id ?d ''/d'' ''new'' 5 ''checkpoint_'' 1 False)) ''checkpoint_5''
          = Some ''old''"
    by (simp add: n)
  from save_checkpoint_existing_target [OF h1 h2, of True id "''/d''" "''new''" 1]
  have b: "fst (save_checkpoint id ?d ''/d'' ''new'' 5 ''checkpoint_'' 1 True) = Inr ''/d/checkpoint_5''
      \<and> map_of (snd (save_checkpoint id ?d ''/d'' ''new'' 5 ''checkpoint_'' 1 True)) ''checkpoint_5''
          = Some ''new''"
    by (simp add: n p r o)
  from h1 h2 a b show ?thesis by simp
qed

subsection \<open>C2: what a save changes before the rename\<close>

text \<open>
  The claim as the specification states it confines every mutation before the rename to
  the temporary file. With \<open>overwrite\<close> set and the target path present the source
  removes the target before it renames: between the two the directory holds the temporary
  file only, and the checkpoint that was at the path is gone.
\<close>

theorem save_states_before_rename_counterexample:
  "[(''checkpoint_tmp'', ''new'')]
     \<in> set (save_states_before_rename id [(''checkpoint_5'', ''old'')] ''new'' 5 ''checkpoint_'' True)
   \<and> map_of [(''checkpoint_5'', ''old'')] ''checkpoint_5'' = Some ''old''
   \<and> map_of [(''checkpoint_tmp'', ''new'')] ''checkpoint_5'' = None
   \<and> ''checkpoint_5'' \<noteq> tmp_name ''checkpoint_''"
  by code_simp

text \<open>
  C2 (amended). In every state the directory is in before the rename, every file other
  than the temporary file and, when \<open>overwrite\<close> is set, the target path, is as it was
  before the call: the only mutations before the rename are the write of
  \<open><prefix>tmp\<close> and, with \<open>overwrite\<close>, the removal of the existing target. (After the
  rename the cleanup removes the old checkpoints, see \<open>save_cleanup_ok\<close>.)
\<close>

theorem save_before_rename_frame:
  assumes "s \<in> set (save_states_before_rename dumps d target step prefix overwrite)"
    and "name \<noteq> tmp_name prefix"
    and "\<not> overwrite \<or> name \<noteq> ckpt_name prefix step"
  shows "map_of s name = map_of d name"
proof -
  let ?d1 = "save_tmp_written dumps d target prefix"
  have m1: "map_of ?d1 name = map_of d name"
    using assms(2) by (simp add: save_tmp_written_def map_of_write_file)
  from assms(1) have "s = d \<or> s = ?d1
      \<or> save_target_cleared ?d1 (ckpt_name prefix step) overwrite = Inr s"
    by (auto simp: save_states_before_rename_def Let_def split: sum.splits)
  then consider "s = d" | "s = ?d1"
    | d2 where "save_target_cleared ?d1 (ckpt_name prefix step) overwrite = Inr d2" "s = d2"
    by blast
  then show ?thesis
  proof cases
    case 1
    then show ?thesis by simp
  next
    case 2
    with m1 show ?thesis by simp
  next
    case 3
    show ?thesis
    proof (cases "exists ?d1 (ckpt_name prefix step) \<and> overwrite")
      case True
      with 3 have r: "os_remove ?d1 (ckpt_name prefix step) = Inr s"
        by (simp add: save_target_cleared_def)
      from True assms(3) have "name \<noteq> ckpt_name prefix step" by simp
      with os_remove_Inr [OF r] m1 show ?thesis by simp
    next
      case False
      with 3 have "s = ?d1" by (auto simp: save_target_cleared_def split: if_splits)
      with m1 show ?thesis by simp
    qed
  qed
qed

text \<open>The state before the rename of a save of step 5 with \<open>overwrite\<close>, and the file
  \<open>checkpoint_3\<close> in it.\<close>

theorem save_before_rename_frame_witness:
  "[(''checkpoint_3'', ''x''), (''checkpoint_tmp'', ''new'')]
     \<in> set (save_states_before_rename id [(''checkpoint_5'', ''old''), (''checkpoint_3'', ''x'')]
               ''new'' 5 ''checkpoint_'' True)
   \<and> ''checkpoint_3'' \<noteq> tmp_name ''checkpoint_''
   \<and> ''checkpoint_3'' \<noteq> ckpt_name ''checkpoint_'' 5
   \<and> map_of [(''checkpoint_3'', ''x''), (''checkpoint_tmp'', ''new'')] ''checkpoint_3''
       = map_of [(''checkpoint_5'', ''old''), (''checkpoint_3'', ''x'')] ''checkpoint_3''"
proof -
  have h1: "[(''checkpoint_3'', ''x''), (''checkpoint_tmp'', ''new'')]
     \<in> set (save_states_before_rename id [(''checkpoint_5'', ''old''), (''checkpoint_3'', ''x'')]
               ''new'' 5 ''checkpoint_'' True)" by code_simp
  have h2: "''checkpoint_3'' \<noteq> tmp_name ''checkpoint_''" by code_simp
  have h3: "''checkpoint_3'' \<noteq> ckpt_name ''checkpoint_'' 5" by code_simp
  then have h3': "\<not> True \<or> ''checkpoint_3'' \<noteq> ckpt_name ''checkpoint_'' 5" by simp
  from save_before_rename_frame [OF h1 h2 h3'] h1 h2 h3 show ?thesis by blast
qed

subsection \<open>C3: restore with and without a step\<close>

text \<open>
  C3. The specification makes an explicit step strict: when the file of the step is not
  there, restore fails. The source tests \<^verbatim>\<open>if step:\<close>, which is false for step 0 as it
  is for no step, so a restore of step 0 takes the lenient branch: in a directory with no
  matching checkpoint (and none of step 0) it returns the target it was given instead of
  failing. For every other step the source is strict (\<open>restore_checkpoint_strict\<close>), and
  without a step it is lenient as the claim says (\<open>restore_checkpoint_lenient\<close>).
\<close>

theorem restore_checkpoint_step_zero:
  "\<not> exists d (ckpt_name prefix 0) \<Longrightarrow> latest_checkpoint_path d ckpt_dir prefix = Inr None \<Longrightarrow>
     restore_checkpoint loads d ckpt_dir target (Some 0) prefix = Inr target"
  by (simp add: restore_checkpoint_def truthy_def)

text \<open>The empty directory: step 0 returns the target, step 5 fails.\<close>

theorem restore_checkpoint_step_zero_witness:
  "\<not> exists ([] :: string directory) (ckpt_name ''checkpoint_'' 0)
   \<and> latest_checkpoint_path ([] :: string directory) ''/d'' ''checkpoint_'' = Inr None
   \<and> restore_checkpoint Inr ([] :: string directory) ''/d'' ''shape'' (Some 0) ''checkpoint_''
       = Inr ''shape''
   \<and> restore_checkpoint Inr ([] :: string directory) ''/d'' ''shape'' (Some 5) ''checkpoint_''
       = Inl ValueError"
proof -
  have h1: "\<not> exists ([] :: string directory) (ckpt_name ''checkpoint_'' 0)"
    by (simp add: exists_def)
  have h2: "latest_checkpoint_path ([] :: string directory) ''/d'' ''checkpoint_'' = Inr None"
    by (rule latest_checkpoint_path_empty)
  have s: "restore_checkpoint Inr ([] :: string directory) ''/d'' ''shape'' (Some 5) ''checkpoint_''
       = Inl ValueError"
    by (simp add: restore_checkpoint_def truthy_def exists_def)
  from restore_checkpoint_step_zero [OF h1 h2, where loads = Inr and target = "''shape''"]
    h1 h2 s show ?thesis by simp
qed

subsection \<open>C10: restore\_from\_path and its target\<close>

text \<open>
  C10. \<open>restore_from_path\<close> does not depend on its target: for every directory, path and
  two targets the two calls return the same, which is what the serializer makes of the
  content of the file at the path, or the exception of the failed open.
\<close>

theorem restore_from_path_ignores_target:
  "restore_from_path loads d ckpt_dir ckpt_path target1
     = restore_from_path loads d ckpt_dir ckpt_path target2
   \<and> restore_from_path loads d ckpt_dir ckpt_path target1
     = (case open_rb d ckpt_dir ckpt_path of Inl e \<Rightarrow> Inl e | Inr b \<Rightarrow> loads b)"
  by (simp add: restore_from_path_def)

subsection \<open>C5: numbers sort by value\<close>


subsection \<open>C6: the option \<open>signed\<close>\<close>

text \<open>
  The claim as the specification states it has the sign, without \<open>signed\<close>, kept as a
  text token that takes part in the comparison. \<open>UNSIGNED_FLOAT_RE\<close> matches the sign
  outside its group, and \<^verbatim>\<open>split\<close> drops what a match does not capture: \<open>a-1\<close> and
  \<open>a+1\<close> have the same key, neither is less than the other although \<open>a+1\<close> is the
  smaller text, and the sort leaves them in input order.
\<close>

theorem natural_sort_unsigned_counterexample:
  "split_keys False ''a-1'' = Inr [Txt ''a'', Num 1, Txt []]
   \<and> split_keys False ''a+1'' = Inr [Txt ''a'', Num 1, Txt []]
   \<and> natural_lt False ''a+1'' ''a-1'' = Inr False
   \<and> ''a+1'' < ''a-1''
   \<and> natural_sort [''a-1'', ''a+1''] False = Inr [''a-1'', ''a+1'']"
  by code_simp

text \<open>
  C6 (amended). With \<open>signed\<close> a sign right in front of a numeric substring is part of
  the number, so \<open>file_-2 < file_0.1 < file_2.0\<close>. Without \<open>signed\<close> the sign the pattern
  matches in front of a numeric substring is not captured and is in no token of the key:
  the key of every name is its key with \<open>signed\<close>, each number replaced by its absolute
  value. The sign is neither part of the number nor a text, and takes no part in a
  comparison: \<open>file_-2\<close> has the key of text \<open>file_\<close>, number 2 and empty text, and
  \<open>a-1\<close> and \<open>a+1\<close>, whose keys are equal, keep their input order.
\<close>

theorem natural_sort_signed_option:
  "natural_lt True ''file_-2'' ''file_0.1'' = Inr True
   \<and> natural_lt True ''file_0.1'' ''file_2.0'' = Inr True
   \<and> natural_sort [''file_2.0'', ''file_0.1'', ''file_-2''] True
        = Inr [''file_-2'', ''file_0.1'', ''file_2.0'']
   \<and> split_keys True ''file_-2'' = Inr [Txt ''file_'', Num (- 2), Txt []]
   \<and> split_keys False ''file_-2'' = Inr [Txt ''file_'', Num 2, Txt []]
   \<and> natural_sort [''file_2.0'', ''file_0.1'', ''file_-2''] False
        = Inr [''file_0.1'', ''file_2.0'', ''file_-2'']
   \<and> natural_sort [''file_-2'', ''file_0.1'', ''file_2.0''] False
        = Inr [''file_0.1'', ''file_-2'', ''file_2.0'']
   \<and> natural_sort [''a-1'', ''a+1''] False = Inr [''a-1'', ''a+1'']
   \<and> natural_sort [''a+1'', ''a-1''] False = Inr [''a+1'', ''a-1'']
   \<and> (\<exists>k. split_keys True s = Inr k \<and> split_keys False s = Inr (map abs_token k))"
proof -
  have 1: "natural_lt True ''file_-2'' ''file_0.1'' = Inr True" by code_simp
  have 2: "natural_lt True ''file_0.1'' ''file_2.0'' = Inr True" by code_simp
  have 3: "natural_sort [''file_2.0'', ''file_0.1'', ''file_-2''] True
        = Inr [''file_-2'', ''file_0.1'', ''file_2.0'']" by code_simp
  have 4: "split_keys True ''file_-2'' = Inr [Txt ''file_'', Num (- 2), Txt []]" by code_simp
  have 5: "split_keys False ''file_-2'' = Inr [Txt ''file_'', Num 2, Txt []]" by code_simp
  have 6: "natural_sort [''file_2.0'', ''file_0.1'', ''file_-2''] False
        = Inr [''file_0.1'', ''file_2.0'', ''file_-2'']" by code_simp
  have 7: "natural_sort [''file_-2'', ''file_0.1'', ''file_2.0''] False
        = Inr [''file_0.1'', ''file_-2'', ''file_2.0'']" by code_simp
  have 8: "natural_sort [''a-1'', ''a+1''] False = Inr [''a-1'', ''a+1'']" by code_simp
  have 9: "natural_sort [''a+1'', ''a-1''] False = Inr [''a+1'', ''a-1'']" by code_simp
  have 10: "\<exists>k. split_keys True s = Inr k \<and> split_keys False s = Inr (map abs_token k)"
    by (rule split_keys_unsigned)
  from 1 2 3 4 5 6 7 8 9 10 show ?thesis by blast
qed

text \<open>A sign between two numbers: in \<open>a1-2\<close> the pattern matches \<open>1\<close> and then \<open>-2\<close>.\<close>

theorem natural_sort_signed_option_witness:
  "split_keys True ''a1-2'' = Inr [Txt ''a'', Num 1, Txt [], Num (- 2), Txt []]
   \<and> split_keys False ''a1-2'' = Inr [Txt ''a'', Num 1, Txt [], Num 2, Txt []]"
proof -
  have t: "split_keys True ''a1-2'' = Inr [Txt ''a'', Num 1, Txt [], Num (- 2), Txt []]"
    by code_simp
  from natural_sort_signed_option [of "''a1-2''"] obtain k where
    "split_keys True ''a1-2'' = Inr k" and f: "split_keys False ''a1-2'' = Inr (map abs_token k)"
    by blast
  with t have "k = [Txt ''a'', Num 1, Txt [], Num (- 2), Txt []]" by simp
  with f t show ?thesis by simp
qed

subsection \<open>C8: the watcher and its timeout\<close>

text \<open>
  C8. A call of \<open>wait_for_new_checkpoint\<close> that returns, returns a value and raises
  nothing. When the value is \<open>None\<close>, a timeout was given and, at the poll that returned,
  nothing new was there and the reading plus the sleep was past the deadline; when it is a
  path, the path is not the one last seen. Without a timeout the call polls for ever as
  long as nothing new appears: it does not return. With a timeout \<open>t\<close>, when the polls
  before the \<open>j\<close>-th find nothing new within the deadline and the \<open>j\<close>-th finds nothing
  new past it, the call returns \<open>None\<close> from the \<open>j\<close>-th poll, and a resumption of the
  iterator ends the sequence with \<open>StopIteration\<close>, the normal end of a generator.
\<close>

theorem watcher_none_only_on_timeout:
  "(wait_for_new_checkpoint w ckpt_dir lastp sleep timeout prefix i = Some y \<longrightarrow>
      (\<exists>r j. y = Inr (r, j) \<and> i \<le> j
         \<and> (r = None \<longrightarrow>
               (\<exists>t. timeout = Some t \<and> time_at w j + sleep > start_time_at w i + t)
               \<and> nothing_new w ckpt_dir prefix lastp j)
         \<and> (\<forall>p. r = Some p \<longrightarrow> Some p \<noteq> lastp)))
   \<and> ((\<forall>k. i \<le> k \<longrightarrow> nothing_new w ckpt_dir prefix lastp k) \<longrightarrow>
         wait_for_new_checkpoint w ckpt_dir lastp sleep None prefix i = None)
   \<and> ((\<forall>k. i \<le> k \<and> k < j \<longrightarrow> nothing_new w ckpt_dir prefix lastp k
                                  \<and> \<not> time_at w k + sleep > start_time_at w i + t)
        \<and> i \<le> j \<and> nothing_new w ckpt_dir prefix lastp j
        \<and> time_at w j + sleep > start_time_at w i + t \<longrightarrow>
         wait_for_new_checkpoint w ckpt_dir lastp sleep (Some t) prefix i = Some (Inr (None, j)))
   \<and> ((\<forall>k. i \<le> k \<and> k < j \<longrightarrow> nothing_new w ckpt_dir prefix lastp k
                                  \<and> \<not> time_at w k + 1 > start_time_at w i + t)
        \<and> i \<le> j \<and> nothing_new w ckpt_dir prefix lastp j
        \<and> time_at w j + 1 > start_time_at w i + t \<longrightarrow>
         checkpoints_iterator_next loads w ckpt_dir target (Some t) prefix lastp i
           = Some StopIteration)"
proof (intro conjI impI)
  assume "wait_for_new_checkpoint w ckpt_dir lastp sleep timeout prefix i = Some y"
  from wait_for_new_checkpoint_result [OF this]
  show "\<exists>r j. y = Inr (r, j) \<and> i \<le> j
         \<and> (r = None \<longrightarrow>
               (\<exists>t. timeout = Some t \<and> time_at w j + sleep > start_time_at w i + t)
               \<and> nothing_new w ckpt_dir prefix lastp j)
         \<and> (\<forall>p. r = Some p \<longrightarrow> Some p \<noteq> lastp)"
    by blast
next
  assume "\<forall>k. i \<le> k \<longrightarrow> nothing_new w ckpt_dir prefix lastp k"
  then show "wait_for_new_checkpoint w ckpt_dir lastp sleep None prefix i = None"
    by (intro wait_for_new_checkpoint_forever) simp
next
  assume a: "(\<forall>k. i \<le> k \<and> k < j \<longrightarrow> nothing_new w ckpt_dir prefix lastp k
                                  \<and> \<not> time_at w k + sleep > start_time_at w i + t)
        \<and> i \<le> j \<and> nothing_new w ckpt_dir prefix lastp j
        \<and> time_at w j + sleep > start_time_at w i + t"
  show "wait_for_new_checkpoint w ckpt_dir lastp sleep (Some t) prefix i = Some (Inr (None, j))"
    by (rule wait_for_new_checkpoint_timeout) (use a in simp_all)
next
  assume a: "(\<forall>k. i \<le> k \<and> k < j \<longrightarrow> nothing_new w ckpt_dir prefix lastp k
                                  \<and> \<not> time_at w k + 1 > start_time_at w i + t)
        \<and> i \<le> j \<and> nothing_new w ckpt_dir prefix lastp j
        \<and> time_at w j + 1 > start_time_at w i + t"
  have "wait_for_new_checkpoint w ckpt_dir lastp 1 (Some t) prefix i = Some (Inr (None, j))"
    by (rule wait_for_new_checkpoint_timeout) (use a in simp_all)
  then show "checkpoints_iterator_next loads w ckpt_dir target (Some t) prefix lastp i
           = Some StopIteration"
    by (simp add: checkpoints_iterator_next_def)
qed

text \<open>An empty directory that stays empty, a clock that reads the number of the poll, a
  timeout of 2 and a sleep of 1: the third poll returns \<open>None\<close>, the iterator stops, and
  without the timeout the call never returns.\<close>

theorem watcher_none_only_on_timeout_witness:
  "wait_for_new_checkpoint
      \<lparr>dir_at = (\<lambda>k. ([] :: string directory)), time_at = (\<lambda>k. of_nat k),
       start_time_at = (\<lambda>k. of_nat k)\<rparr>
      ''/d'' None 1 (Some 2) ''checkpoint_'' 0 = Some (Inr (None, 2))
   \<and> checkpoints_iterator_next (Inr :: string \<Rightarrow> error + string)
      \<lparr>dir_at = (\<lambda>k. ([] :: string directory)), time_at = (\<lambda>k. of_nat k),
       start_time_at = (\<lambda>k. of_nat k)\<rparr>
      ''/d'' None (Some 2) ''checkpoint_'' None 0 = Some StopIteration
   \<and> wait_for_new_checkpoint
      \<lparr>dir_at = (\<lambda>k. ([] :: string directory)), time_at = (\<lambda>k. of_nat k),
       start_time_at = (\<lambda>k. of_nat k)\<rparr>
      ''/d'' None 1 None ''checkpoint_'' 0 = None"
proof -
  let ?w = "\<lparr>dir_at = (\<lambda>k. ([] :: string directory)), time_at = (\<lambda>k. of_nat k),
       start_time_at = (\<lambda>k. of_nat k)\<rparr>"
  have nn: "nothing_new ?w ''/d'' ''checkpoint_'' None k" for k
    by (simp add: nothing_new_def latest_checkpoint_path_empty)
  have t: "(\<forall>k. 0 \<le> k \<and> k < 2 \<longrightarrow> nothing_new ?w ''/d'' ''checkpoint_'' None k
                                  \<and> \<not> time_at ?w k + 1 > start_time_at ?w 0 + 2)
        \<and> (0::nat) \<le> 2 \<and> nothing_new ?w ''/d'' ''checkpoint_'' None 2
        \<and> time_at ?w 2 + 1 > start_time_at ?w 0 + 2"
  proof (intro conjI allI impI)
    fix k :: nat
    assume "0 \<le> k \<and> k < 2"
    then have "k = 0 \<or> k = 1" by auto
    then show "\<not> time_at ?w k + 1 > start_time_at ?w 0 + 2" by auto
  qed (simp_all add: nn)
  have f: "\<forall>k. 0 \<le> k \<longrightarrow> nothing_new ?w ''/d'' ''checkpoint_'' None k"
    by (simp add: nn)
  note inst = watcher_none_only_on_timeout [of "?w" "''/d''" None 1 _ "''checkpoint_''" 0 _ 2 2
      "Inr :: string \<Rightarrow> error + string" None]
  from inst t have a: "wait_for_new_checkpoint ?w ''/d'' None 1 (Some 2) ''checkpoint_'' 0
      = Some (Inr (None, 2))" by blast
  from inst t have b: "checkpoints_iterator_next (Inr :: string \<Rightarrow> error + string) ?w ''/d'' None
      (Some 2) ''checkpoint_'' None 0 = Some StopIteration" by blast
  from inst f have c: "wait_for_new_checkpoint ?w ''/d'' None 1 None ''checkpoint_'' 0 = None"
    by blast
  from a b c show ?thesis by blast
qed

subsection \<open>C4: the temporary file is no checkpoint\<close>

text \<open>
  C4. The specification has the file \<open><prefix>tmp\<close> left out of every result of
  \<open>latest_checkpoint_path\<close>, of what the watcher returns, and of the files the cleanup of
  a save counts and removes. The source leaves it out of the latest path by comparing
  every path \<^verbatim>\<open>glob\<close> returns with \<^verbatim>\<open>os.path.join(ckpt_dir, prefix + 'tmp')\<close>. The two
  are built differently: \<^verbatim>\<open>glob\<close> returns the directory as \<^verbatim>\<open>os.path.split\<close> leaves it,
  without the separators at its end, and \<^verbatim>\<open>os.path.join\<close> keeps them. For the directory
  \<open>d//\<close>, holding \<open>checkpoint_5\<close> and a temporary file, \<^verbatim>\<open>glob\<close> returns
  \<open>d/checkpoint_tmp\<close>, the filter looks for \<open>d//checkpoint_tmp\<close> and lets it pass, and
  since \<open>natural_sort\<close> puts it last, the temporary file is the latest checkpoint: the
  watcher returns its path, and a restore without a step loads its content. Written
  \<open>d/\<close> the same directory gives \<open>checkpoint_5\<close>.

  The filter does what the claim says for every directory written without a spare
  separator at its end (\<open>latest_checkpoint_path_plain\<close>, \<open>wait_for_new_checkpoint_plain\<close>,
  \<open>checkpoints_iterator_next_plain\<close>), and the cleanup of a save never meets the
  temporary file (\<open>save_cleanup_without_tmp\<close>).
\<close>

theorem latest_checkpoint_path_returns_tmp:
  "glob [(''checkpoint_5'', ''a''), (''checkpoint_tmp'', ''partial'')] ''d//'' ''checkpoint_''
     = [''d/checkpoint_5'', ''d/checkpoint_tmp'']
   \<and> checkpoint_path ''d//'' ''tmp'' ''checkpoint_'' = ''d//checkpoint_tmp''
   \<and> latest_checkpoint_path [(''checkpoint_5'', ''a''), (''checkpoint_tmp'', ''partial'')]
        ''d//'' ''checkpoint_'' = Inr (Some ''d/checkpoint_tmp'')
   \<and> open_rb [(''checkpoint_5'', ''a''), (''checkpoint_tmp'', ''partial'')] ''d//''
        ''d/checkpoint_tmp'' = Inr ''partial''
   \<and> restore_checkpoint Inr [(''checkpoint_5'', ''a''), (''checkpoint_tmp'', ''partial'')]
        ''d//'' ''shape'' None ''checkpoint_'' = Inr ''partial''
   \<and> wait_for_new_checkpoint
        \<lparr>dir_at = (\<lambda>k. [(''checkpoint_5'', ''a''), (''checkpoint_tmp'', ''partial'')]),
         time_at = (\<lambda>k. of_nat k), start_time_at = (\<lambda>k. of_nat k)\<rparr>
        ''d//'' None 1 None ''checkpoint_'' 0 = Some (Inr (Some ''d/checkpoint_tmp'', 0))
   \<and> latest_checkpoint_path [(''checkpoint_5'', ''a''), (''checkpoint_tmp'', ''partial'')]
        ''d/'' ''checkpoint_'' = Inr (Some ''d/checkpoint_5'')"
proof -
  let ?d = "[(''checkpoint_5'', ''a''), (''checkpoint_tmp'', ''partial'')]"
  let ?w = "\<lparr>dir_at = (\<lambda>k. ?d), time_at = (\<lambda>k. of_nat k), start_time_at = (\<lambda>k. of_nat k)\<rparr>"
  have 1: "glob ?d ''d//'' ''checkpoint_'' = [''d/checkpoint_5'', ''d/checkpoint_tmp'']"
    by code_simp
  have 2: "checkpoint_path ''d//'' ''tmp'' ''checkpoint_'' = ''d//checkpoint_tmp''"
    by code_simp
  have 3: "latest_checkpoint_path ?d ''d//'' ''checkpoint_'' = Inr (Some ''d/checkpoint_tmp'')"
    by code_simp
  have 4: "open_rb ?d ''d//'' ''d/checkpoint_tmp'' = Inr ''partial''"
    by code_simp
  have 5: "restore_checkpoint Inr ?d ''d//'' ''shape'' None ''checkpoint_'' = Inr ''partial''"
    by code_simp
  have "latest_checkpoint_path (dir_at ?w 0) ''d//'' ''checkpoint_'' = Inr (Some ''d/checkpoint_tmp'')"
    using 3 by simp
  then have "wait_loop ?w ''d//'' None 1 None ''checkpoint_'' 0
      = Some (Inr (Some ''d/checkpoint_tmp'', 0))"
    by (rule wait_loop_found) simp
  then have 6: "wait_for_new_checkpoint ?w ''d//'' None 1 None ''checkpoint_'' 0
      = Some (Inr (Some ''d/checkpoint_tmp'', 0))"
    by (simp add: wait_for_new_checkpoint_def)
  have 7: "latest_checkpoint_path ?d ''d/'' ''checkpoint_'' = Inr (Some ''d/checkpoint_5'')"
    by code_simp
  from 1 2 3 4 5 6 7 show ?thesis by blast
qed

subsection \<open>C1: retention\<close>

text \<open>
  The claim as the specification states it asks of the steps only that they differ. The
  cleanup knows nothing of the order of the saves: it sorts the names and keeps the last
  \<open>keep\<close> of them, so which files stay is a matter of the names. Step 2 saved before
  step 1 with \<open>keep = 1\<close>: the second save writes \<open>checkpoint_1\<close> and the cleanup
  removes it at once, since \<open>checkpoint_2\<close> is the last name; the file that stays is the
  one saved first.
\<close>

theorem save_all_retention_counterexample:
  "save_all id [] ''/d'' [(''first'', 2), (''second'', 1)] ''checkpoint_'' 1 False
     = (Inr (), [(''checkpoint_2'', ''first'')])
   \<and> checkpoint_files [(''checkpoint_2'', ''first'')] ''checkpoint_'' = [ckpt_name ''checkpoint_'' 2]
   \<and> ckpt_name ''checkpoint_'' 1 \<notin> set (listdir [(''checkpoint_2'', ''first'')])"
  by code_simp

text \<open>
  C1 (amended). In a directory with distinct names and no file of the prefix, let \<open>N\<close>
  saves be made with \<open>keep = k\<close>, \<open>1 \<le> k < N\<close>, whose steps increase and whose file names
  increase in the order of strings as well (as the names of non-negative steps with the
  same number of digits do). Then every save succeeds, exactly \<open>k\<close> files of the prefix
  remain, they are the files of the \<open>k\<close> saves made last, each with the content of its
  save, and the files of other names are as they were.

  The second hypothesis on the order is there because the cleanup sorts the names as
  strings, where \<open>latest_checkpoint_path\<close> sorts them with \<open>natural_sort\<close>; where the two
  orders differ (\<open>checkpoint_9\<close> and \<open>checkpoint_10\<close>) the statement says nothing. Nor
  does it for \<open>keep = 0\<close>, where \<^verbatim>\<open>checkpoint_files[:-0]\<close> is the empty list and nothing
  is removed. Both are evaluated after the witness.
\<close>

theorem save_all_retention:
  assumes "distinct (listdir d)"
    and "\<forall>n \<in> set (listdir d). \<not> startswith n prefix"
    and "sorted_wrt (<) (map snd saves)"
    and "sorted_wrt (<) (map (\<lambda>(t, s). ckpt_name prefix s) saves)"
    and "1 \<le> keep" and "nat keep < length saves"
  shows "\<exists>d'. save_all dumps d ckpt_dir saves prefix keep overwrite = (Inr (), d')
       \<and> checkpoint_files d' prefix
            = map (\<lambda>(t, s). ckpt_name prefix s) (drop (length saves - nat keep) saves)
       \<and> length (checkpoint_files d' prefix) = nat keep
       \<and> (\<forall>(t, s) \<in> set (drop (length saves - nat keep) saves).
             map_of d' (ckpt_name prefix s) = Some (dumps t))
       \<and> (\<forall>n. \<not> startswith n prefix \<longrightarrow> map_of d' n = map_of d n)"
proof -
  let ?names = "map (\<lambda>(t, s). ckpt_name prefix s) saves"
  let ?kvs = "map (\<lambda>(t, s). (ckpt_name prefix s, dumps t)) saves"
  let ?m = "length saves - nat keep"
  have P: "checkpoint_files d prefix = []"
    using assms(2) by (simp add: checkpoint_files_def filter_empty_conv)
  have "startswith (tmp_name prefix) prefix" by (simp add: tmp_name_def startswith_append)
  with assms(2) have tmp: "tmp_name prefix \<notin> set (listdir d)" by blast
  from save_all_increasing [OF assms(1) tmp _ assms(5), of saves dumps ckpt_dir overwrite]
    assms(4) P
  obtain d' where
    s: "save_all dumps d ckpt_dir saves prefix keep overwrite = (Inr (), d')"
    and p: "checkpoint_files d' prefix = drop ?m ?names"
    and m: "\<forall>n \<in> set (checkpoint_files d' prefix). map_of d' n = (map_of d ++ map_of ?kvs) n"
    and f: "\<forall>n. \<not> startswith n prefix \<longrightarrow> map_of d' n = map_of d n"
    by auto
  have 2: "checkpoint_files d' prefix = map (\<lambda>(t, s). ckpt_name prefix s) (drop ?m saves)"
    by (simp add: p drop_map)
  have 3: "length (checkpoint_files d' prefix) = nat keep"
    using assms(6) by (simp add: p)
  have keys: "map fst ?kvs = ?names" by (induction saves) auto
  from assms(4) have dist: "distinct (map fst ?kvs)"
    unfolding keys by (simp add: strict_sorted_iff)
  have 4: "\<forall>(t, s) \<in> set (drop ?m saves). map_of d' (ckpt_name prefix s) = Some (dumps t)"
  proof (intro ballI, clarify)
    fix t s assume ts: "(t, s) \<in> set (drop ?m saves)"
    then have "ckpt_name prefix s \<in> set (checkpoint_files d' prefix)"
      unfolding 2 by force
    with m have "map_of d' (ckpt_name prefix s) = (map_of d ++ map_of ?kvs) (ckpt_name prefix s)"
      by blast
    moreover from ts have "(t, s) \<in> set saves" by (rule in_set_dropD)
    then have "(ckpt_name prefix s, dumps t) \<in> set ?kvs" by force
    with dist have "map_of ?kvs (ckpt_name prefix s) = Some (dumps t)" by (rule map_of_is_SomeI)
    ultimately show "map_of d' (ckpt_name prefix s) = Some (dumps t)" by (simp add: map_add_def)
  qed
  from s 2 3 4 f show ?thesis by blast
qed

text \<open>Steps 1, 2, 3 into the empty directory with \<open>keep = 2\<close>.\<close>

theorem save_all_retention_witness:
  "sorted_wrt (<) (map snd [(''a'', 1 :: int), (''b'', 2), (''c'', 3)])
   \<and> sorted_wrt (<) (map (\<lambda>(t, s). ckpt_name ''checkpoint_'' s) [(''a'', 1), (''b'', 2), (''c'', 3)])
   \<and> nat 2 < length [(''a'', 1 :: int), (''b'', 2), (''c'', 3)]
   \<and> save_all id [] ''/d'' [(''a'', 1), (''b'', 2), (''c'', 3)] ''checkpoint_'' 2 False
       = (Inr (), [(''checkpoint_2'', ''b''), (''checkpoint_3'', ''c'')])
   \<and> checkpoint_files [(''checkpoint_2'', ''b''), (''checkpoint_3'', ''c'')] ''checkpoint_''
       = [''checkpoint_2'', ''checkpoint_3'']
   \<and> length (checkpoint_files [(''checkpoint_2'', ''b''), (''checkpoint_3'', ''c'')] ''checkpoint_'')
       = nat 2"
proof -
  let ?saves = "[(''a'', 1 :: int), (''b'', 2), (''c'', 3)]"
  have h1: "distinct (listdir ([] :: string directory))" by (simp add: listdir_def)
  have h2: "\<forall>n \<in> set (listdir ([] :: string directory)). \<not> startswith n ''checkpoint_''"
    by (simp add: listdir_def)
  have h3: "sorted_wrt (<) (map snd ?saves)" by simp
  have h4: "sorted_wrt (<) (map (\<lambda>(t, s). ckpt_name ''checkpoint_'' s) ?saves)" by code_simp
  have h5: "(1 :: int) \<le> 2" by simp
  have h6: "nat 2 < length ?saves" by simp
  have e: "save_all id [] ''/d'' ?saves ''checkpoint_'' 2 False
       = (Inr (), [(''checkpoint_2'', ''b''), (''checkpoint_3'', ''c'')])" by code_simp
  have n: "map (\<lambda>(t, s). ckpt_name ''checkpoint_'' s) (drop (length ?saves - nat 2) ?saves)
       = [''checkpoint_2'', ''checkpoint_3'']" by code_simp
  from save_all_retention [OF h1 h2 h3 h4 h5 h6, of id "''/d''" False] obtain d' where
    s: "save_all id [] ''/d'' ?saves ''checkpoint_'' 2 False = (Inr (), d')"
    and c: "checkpoint_files d' ''checkpoint_''
        = map (\<lambda>(t, s). ckpt_name ''checkpoint_'' s) (drop (length ?saves - nat 2) ?saves)"
    and l: "length (checkpoint_files d' ''checkpoint_'') = nat 2"
    by blast
  from s e have d': "d' = [(''checkpoint_2'', ''b''), (''checkpoint_3'', ''c'')]" by simp
  from c l n have "checkpoint_files [(''checkpoint_2'', ''b''), (''checkpoint_3'', ''c'')] ''checkpoint_''
       = [''checkpoint_2'', ''checkpoint_3'']"
    and "length (checkpoint_files [(''checkpoint_2'', ''b''), (''checkpoint_3'', ''c'')] ''checkpoint_'')
       = nat 2"
    unfolding d' by simp_all
  with h3 h4 h6 e show ?thesis by blast
qed

text \<open>Steps 9 and 10 with \<open>keep = 1\<close> leave \<open>checkpoint_9\<close>; steps 1 and 2 with
  \<open>keep = 0\<close> leave both files.\<close>

lemma save_all_string_order:
  "save_all id [] ''/d'' [(''a'', 9), (''b'', 10)] ''checkpoint_'' 1 False
     = (Inr (), [(''checkpoint_9'', ''a'')])"
  by code_simp

lemma save_all_keep_zero:
  "save_all id [] ''/d'' [(''a'', 1), (''b'', 2)] ''checkpoint_'' 0 False
     = (Inr (), [(''checkpoint_1'', ''a''), (''checkpoint_2'', ''b'')])"
  by code_simp

end
